theory Spec2Isabelle
  imports Main "HOL-Library.Word"
begin

unbundle bit_operations_syntax

section \<open>Machine types of CardDefs.h\<close>

text \<open>
  Every value class of \<^verbatim>\<open>CardDefs.h\<close> wraps one unsigned machine integer:
  \<^verbatim>\<open>unsigned char\<close> for StrainT, RankT, Priority, Direction and Position, and
  \<^verbatim>\<open>unsigned short\<close> for RankSet.  The header is compiled with
  \<^verbatim>\<open>DDS_CHECKING_CARDDEFS 1\<close>, so \<^verbatim>\<open>DDS_CARDDEFS_CHECKVALID()\<close> is a call of
  \<^verbatim>\<open>checkValid()\<close>, whose body is an \<^verbatim>\<open>assert\<close>.  A failed assertion aborts the
  program; an operation that can reach one returns an option, and \<open>None\<close> is the abort.
\<close>

type_synonym uchar = "8 word"
type_synonym ushort = "16 word"

section \<open>Suit and Strain (template StrainT)\<close>

datatype StrainT = StrainT (strain_value: uchar)

text \<open>\<^verbatim>\<open>enum limitType { minValue = 0, maxValue = noTrumpOk ? 4 : 3 }\<close>\<close>

definition strain_minValue :: uchar where
  "strain_minValue = 0"

definition strain_maxValue :: "bool \<Rightarrow> uchar" where
  "strain_maxValue noTrumpOk = (if noTrumpOk then 4 else 3)"

definition strain_optionalValue :: uchar where
  "strain_optionalValue = 0xBD"

text \<open>The condition asserted by \<^verbatim>\<open>StrainT::checkValid(bool optionalOk = false)\<close>.\<close>

definition strain_checkValid :: "bool \<Rightarrow> bool \<Rightarrow> StrainT \<Rightarrow> bool" where
  "strain_checkValid noTrumpOk optionalOk s =
     ((if strain_value s \<noteq> strain_optionalValue then True else optionalOk)
      \<or> (strain_value s \<le> strain_maxValue noTrumpOk
          \<and> (if strain_value s \<noteq> 4 then True else noTrumpOk)))"

text \<open>\<^verbatim>\<open>explicit StrainT (unsigned char value)\<close>: stores the value, then checks it.\<close>

definition StrainT_of_uchar :: "bool \<Rightarrow> uchar \<Rightarrow> StrainT option" where
  "StrainT_of_uchar noTrumpOk v =
     (if strain_checkValid noTrumpOk False (StrainT v) then Some (StrainT v) else None)"

text \<open>The four ordering operators and the two equality operators, branch by branch.\<close>

definition strain_gt :: "StrainT \<Rightarrow> StrainT \<Rightarrow> bool" where
  "strain_gt lhs rhs =
     (if strain_value rhs = 4 then False else strain_value lhs < strain_value rhs)"

definition strain_ge :: "StrainT \<Rightarrow> StrainT \<Rightarrow> bool" where
  "strain_ge lhs rhs =
     (if strain_value rhs = 4 then strain_value lhs = 4
      else strain_value lhs \<le> strain_value rhs)"

definition strain_lt :: "StrainT \<Rightarrow> StrainT \<Rightarrow> bool" where
  "strain_lt lhs rhs =
     (if strain_value lhs = 4 then False else strain_value lhs > strain_value rhs)"

definition strain_le :: "StrainT \<Rightarrow> StrainT \<Rightarrow> bool" where
  "strain_le lhs rhs =
     (if strain_value lhs = 4 then strain_value rhs = 4
      else strain_value lhs \<ge> strain_value rhs)"

definition strain_eq :: "StrainT \<Rightarrow> StrainT \<Rightarrow> bool" where
  "strain_eq lhs rhs = (strain_value lhs = strain_value rhs)"

definition strain_ne :: "StrainT \<Rightarrow> StrainT \<Rightarrow> bool" where
  "strain_ne lhs rhs = (strain_value lhs = strain_value rhs)"

text \<open>The historical numbering: Spades=0, Hearts=1, Diamonds=2, Clubs=3, NoTrump=4.\<close>

definition Spades :: StrainT where "Spades = StrainT 0"
definition Hearts :: StrainT where "Hearts = StrainT 1"
definition Diamonds :: StrainT where "Diamonds = StrainT 2"
definition Clubs :: StrainT where "Clubs = StrainT 3"
definition NoTrump :: StrainT where "NoTrump = StrainT 4"

text \<open>
  \<^verbatim>\<open>Strain::highToLow()\<close>, \<^verbatim>\<open>Strain::lowToHigh()\<close>, \<^verbatim>\<open>Suit::highToLow()\<close> and
  \<^verbatim>\<open>Suit::lowToHigh()\<close>: the initialiser lists of the static vectors, each element
  built by the checked constructor.
\<close>

definition Strain_highToLow :: "StrainT option list" where
  "Strain_highToLow = map (StrainT_of_uchar True) [4, 0, 1, 2, 3]"

definition Strain_lowToHigh :: "StrainT option list" where
  "Strain_lowToHigh = map (StrainT_of_uchar True) [0, 3, 2, 1, 0]"

definition Suit_highToLow :: "StrainT option list" where
  "Suit_highToLow = map (StrainT_of_uchar False) [0, 1, 2, 3]"

definition Suit_lowToHigh :: "StrainT option list" where
  "Suit_lowToHigh = map (StrainT_of_uchar False) [3, 2, 1, 0]"

section \<open>Direction and Position\<close>

datatype Direction = Direction (direction_value: uchar)

datatype Position = Position (position_value: uchar)

definition direction_checkValid :: "Direction \<Rightarrow> bool" where
  "direction_checkValid d = (direction_value d \<le> 3)"

definition position_checkValid :: "Position \<Rightarrow> bool" where
  "position_checkValid p = (position_value p \<le> 3)"

text \<open>\<^verbatim>\<open>explicit Direction (unsigned char value)\<close> and \<^verbatim>\<open>Position (unsigned char value)\<close>.\<close>

definition Direction_of_uchar :: "uchar \<Rightarrow> Direction option" where
  "Direction_of_uchar v =
     (if direction_checkValid (Direction v) then Some (Direction v) else None)"

definition Position_of_uchar :: "uchar \<Rightarrow> Position option" where
  "Position_of_uchar v =
     (if position_checkValid (Position v) then Some (Position v) else None)"

text \<open>\<^verbatim>\<open>toNumber()\<close>, which is also the conversion \<^verbatim>\<open>operator unsigned char()\<close>.\<close>

definition direction_toNumber :: "Direction \<Rightarrow> uchar option" where
  "direction_toNumber d = (if direction_checkValid d then Some (direction_value d) else None)"

definition position_toNumber :: "Position \<Rightarrow> uchar option" where
  "position_toNumber p = (if position_checkValid p then Some (position_value p) else None)"

text \<open>
  \<^verbatim>\<open>Position (Direction const & leading, Direction const & relative) :
     value ((leading + relative) & 3)\<close>.
  Both operands are \<^verbatim>\<open>Direction const &\<close>, so the member \<^verbatim>\<open>Direction::operator+\<close>
  (not const, and taking a Position) does not apply: each operand converts to
  \<^verbatim>\<open>unsigned char\<close> and the built-in \<^verbatim>\<open>int\<close> addition is used.  The result is
  narrowed to \<^verbatim>\<open>unsigned char\<close> and checked.
\<close>

definition Position_of_directions :: "Direction \<Rightarrow> Direction \<Rightarrow> Position option" where
  "Position_of_directions leading relative =
     (case direction_toNumber leading of
        None \<Rightarrow> None
      | Some l \<Rightarrow>
          (case direction_toNumber relative of
             None \<Rightarrow> None
           | Some r \<Rightarrow> Position_of_uchar (word_of_int ((uint l + uint r) AND 3))))"

text \<open>
  \<^verbatim>\<open>Direction Direction::operator+ (Position const & relative)\<close>:
  \<^verbatim>\<open>return Direction((value + relative.toNumber()) & 3)\<close> after the validity check.
\<close>

definition direction_plus :: "Direction \<Rightarrow> Position \<Rightarrow> Direction option" where
  "direction_plus d relative =
     (if \<not> direction_checkValid d then None
      else (case position_toNumber relative of
              None \<Rightarrow> None
            | Some n \<Rightarrow> Direction_of_uchar (word_of_int ((uint (direction_value d) + uint n) AND 3))))"

definition North :: Direction where "North = Direction 0"
definition East :: Direction where "East = Direction 1"
definition South :: Direction where "South = Direction 2"
definition West :: Direction where "West = Direction 3"

section \<open>Rank (template RankT) and Priority\<close>

datatype Rank = Rank (rank_value: uchar)

text \<open>
  \<^verbatim>\<open>enum limitType { minValue = zeroOk ? 0 : (oneOk ? 1 : 2),
     maxValue = fifteenOk ? 15 : 14 }\<close>
\<close>

definition rank_minValue :: "bool \<Rightarrow> bool \<Rightarrow> uchar" where
  "rank_minValue zeroOk oneOk = (if zeroOk then 0 else (if oneOk then 1 else 2))"

definition rank_maxValue :: "bool \<Rightarrow> uchar" where
  "rank_maxValue fifteenOk = (if fifteenOk then 15 else 14)"

definition rankT_checkValid :: "bool \<Rightarrow> bool \<Rightarrow> bool \<Rightarrow> Rank \<Rightarrow> bool" where
  "rankT_checkValid zeroOk oneOk fifteenOk r =
     (rank_value r \<le> rank_maxValue fifteenOk
      \<and> (if rank_value r \<noteq> 0 then True else zeroOk)
      \<and> (if rank_value r \<noteq> 1 then True else oneOk)
      \<and> (if rank_value r \<noteq> 15 then True else fifteenOk))"

text \<open>\<^verbatim>\<open>class Rank : public RankT<false, false, false>\<close>\<close>

definition Rank_min :: uchar where
  "Rank_min = rank_minValue False False"

definition Rank_max :: uchar where
  "Rank_max = rank_maxValue False"

definition rank_checkValid :: "Rank \<Rightarrow> bool" where
  "rank_checkValid r = rankT_checkValid False False False r"

definition Rank_of_uchar :: "uchar \<Rightarrow> Rank option" where
  "Rank_of_uchar v = (if rank_checkValid (Rank v) then Some (Rank v) else None)"

definition rank_toNumber :: "Rank \<Rightarrow> uchar option" where
  "rank_toNumber r = (if rank_checkValid r then Some (rank_value r) else None)"

text \<open>
  \<^verbatim>\<open>optional<Rank>\<close> is a Rank whose value may be the reserved pattern
  \<^verbatim>\<open>optionalValue = 0xBD\<close>: \<^verbatim>\<open>setOptional()\<close> stores it and \<^verbatim>\<open>testOptional()\<close>
  compares with it.
\<close>

definition rank_optionalValue :: uchar where
  "rank_optionalValue = 0xBD"

definition rank_nullopt :: Rank where
  "rank_nullopt = Rank rank_optionalValue"

definition rank_testOptional :: "Rank \<Rightarrow> bool" where
  "rank_testOptional r = (rank_value r = rank_optionalValue)"

text \<open>\<^verbatim>\<open>Rank::bitMask()\<close>: the validity check, then a read of the 16-entry table.\<close>

definition bitMaskRankData :: "ushort list" where
  "bitMaskRankData =
     [0xAE00, 0xAE01,
      0x0001, 0x0002, 0x0004, 0x0008, 0x0010, 0x0020,
      0x0040, 0x0080, 0x0100, 0x0200, 0x0400, 0x0800, 0x1000,
      0xAE0F]"

definition bitMask :: "Rank \<Rightarrow> ushort option" where
  "bitMask r =
     (if rank_checkValid r then Some (bitMaskRankData ! unat (rank_value r)) else None)"

datatype Priority = Priority (priority_value: uchar)

definition priority_checkValid :: "Priority \<Rightarrow> bool" where
  "priority_checkValid p = (priority_value p \<noteq> 0 \<and> priority_value p \<le> 14)"

definition Priority_of_uchar :: "uchar \<Rightarrow> Priority option" where
  "Priority_of_uchar v = (if priority_checkValid (Priority v) then Some (Priority v) else None)"

definition priority_toNumber :: "Priority \<Rightarrow> uchar option" where
  "priority_toNumber p = (if priority_checkValid p then Some (priority_value p) else None)"

definition priority_optionalValue :: uchar where
  "priority_optionalValue = 0xBD"

definition priority_nullopt :: Priority where
  "priority_nullopt = Priority priority_optionalValue"

definition priority_testOptional :: "Priority \<Rightarrow> bool" where
  "priority_testOptional p = (priority_value p = priority_optionalValue)"

text \<open>\<^verbatim>\<open>SpecializeOptional<Priority>::operator*\<close>: asserts that the value is present.\<close>

definition priority_deref :: "Priority \<Rightarrow> Priority option" where
  "priority_deref p = (if priority_testOptional p then None else Some p)"

section \<open>RankSet\<close>

datatype RankSet = RankSet (rankset_value: ushort)

definition Suit_numCards :: nat where
  "Suit_numCards = 13"

text \<open>\<^verbatim>\<open>enum limitType { minValue = 0, maxValue = ((1 << Suit::numCards) - 1) }\<close>\<close>

definition RankSet_min :: ushort where
  "RankSet_min = 0"

definition RankSet_max :: ushort where
  "RankSet_max = push_bit Suit_numCards 1 - 1"

definition rankset_checkValid :: "RankSet \<Rightarrow> bool" where
  "rankset_checkValid rs = (rankset_value rs \<le> RankSet_max)"

text \<open>
  The constructors \<^verbatim>\<open>explicit RankSet (unsigned short value)\<close>, \<^verbatim>\<open>RankSet ()\<close> and
  \<^verbatim>\<open>explicit RankSet (Rank const & rank)\<close>, and \<^verbatim>\<open>toNumber()\<close>.
\<close>

definition RankSet_of_ushort :: "ushort \<Rightarrow> RankSet option" where
  "RankSet_of_ushort v = (if rankset_checkValid (RankSet v) then Some (RankSet v) else None)"

definition RankSet_empty :: RankSet where
  "RankSet_empty = RankSet 0"

definition RankSet_of_rank :: "Rank \<Rightarrow> RankSet option" where
  "RankSet_of_rank rank =
     (case bitMask rank of None \<Rightarrow> None | Some m \<Rightarrow> RankSet_of_ushort m)"

definition rankset_toNumber :: "RankSet \<Rightarrow> ushort option" where
  "rankset_toNumber rs = (if rankset_checkValid rs then Some (rankset_value rs) else None)"

text \<open>\<^verbatim>\<open>bool test(Rank const & rank) const { return value & rank.bitMask(); }\<close>\<close>

definition test :: "RankSet \<Rightarrow> Rank \<Rightarrow> bool option" where
  "test rs rank =
     (if \<not> rankset_checkValid rs then None
      else (case bitMask rank of
              None \<Rightarrow> None
            | Some m \<Rightarrow> Some (rankset_value rs AND m \<noteq> 0)))"

text \<open>\<^verbatim>\<open>toSingleRank()\<close>: the switch on the value, case by case.\<close>

definition toSingleRank :: "RankSet \<Rightarrow> Rank option" where
  "toSingleRank rs =
     (if \<not> rankset_checkValid rs then None
      else if rankset_value rs = 0x1000 then Rank_of_uchar 14
      else if rankset_value rs = 0x0800 then Rank_of_uchar 13
      else if rankset_value rs = 0x0400 then Rank_of_uchar 12
      else if rankset_value rs = 0x0200 then Rank_of_uchar 11
      else if rankset_value rs = 0x0100 then Rank_of_uchar 10
      else if rankset_value rs = 0x0080 then Rank_of_uchar 9
      else if rankset_value rs = 0x0040 then Rank_of_uchar 8
      else if rankset_value rs = 0x0020 then Rank_of_uchar 7
      else if rankset_value rs = 0x0010 then Rank_of_uchar 6
      else if rankset_value rs = 0x0008 then Rank_of_uchar 5
      else if rankset_value rs = 0x0004 then Rank_of_uchar 4
      else if rankset_value rs = 0x0002 then Rank_of_uchar 3
      else if rankset_value rs = 0x0001 then Rank_of_uchar 2
      else if rankset_value rs = 0x0000 then Some rank_nullopt
      else Some rank_nullopt)"

subsection \<open>The lookup tables\<close>

text \<open>
  \<^verbatim>\<open>highestRank\<close>, \<^verbatim>\<open>count\<close>, \<^verbatim>\<open>priorityIfInHand\<close> and \<^verbatim>\<open>winRanks\<close> fill a
  static table on first use, one row per RankSet \<open>rs\<close> from \<^verbatim>\<open>RankSet::min()\<close> to
  \<^verbatim>\<open>RankSet::max()\<close>, and then return the row of their own value.  The row of \<open>rs\<close> is
  computed by an inner loop
  \<^verbatim>\<open>for (Rank r = Rank::max(); r >= Rank::min(); r--)\<close>
  which is modelled by a recursive function on the loop variable; the legacy
  \<^verbatim>\<open>r--\<close> and \<^verbatim>\<open>r >= Rank::min()\<close> do no validity check, the body does.
  A read \<^verbatim>\<open>data[value]\<close> is the row computed for the RankSet of that value.
\<close>

function highestRank_loop :: "RankSet \<Rightarrow> uchar \<Rightarrow> Rank option" where
  "highestRank_loop rs r =
     (if r \<ge> Rank_min then
        (case test rs (Rank r) of
           None \<Rightarrow> None
         | Some b \<Rightarrow> if b then Some (Rank r) else highestRank_loop rs (r - 1))
      else Some rank_nullopt)"
  by pat_completeness auto
termination
  by (relation "measure (\<lambda>(rs, r). unat r)")
     (auto simp: Rank_min_def rank_minValue_def word_le_nat_alt unat_minus_one
        unat_eq_0 [symmetric] simp del: unat_eq_0)

definition highestRank :: "RankSet \<Rightarrow> Rank option" where
  "highestRank rs =
     (if \<not> rankset_checkValid rs then None else highestRank_loop rs Rank_max)"

function count_loop :: "RankSet \<Rightarrow> uchar \<Rightarrow> uchar \<Rightarrow> uchar option" where
  "count_loop rs r result =
     (if r \<ge> Rank_min then
        (case test rs (Rank r) of
           None \<Rightarrow> None
         | Some b \<Rightarrow> count_loop rs (r - 1) (if b then result + 1 else result))
      else Some result)"
  by pat_completeness auto
termination
  by (relation "measure (\<lambda>(rs, r, result). unat r)")
     (auto simp: Rank_min_def rank_minValue_def word_le_nat_alt unat_minus_one
        unat_eq_0 [symmetric] simp del: unat_eq_0)

definition count :: "RankSet \<Rightarrow> uchar option" where
  "count rs = (if \<not> rankset_checkValid rs then None else count_loop rs Rank_max 0)"

text \<open>\<^verbatim>\<open>none()\<close> and \<^verbatim>\<open>any()\<close> compare the value with 0 and check nothing.\<close>

definition none :: "RankSet \<Rightarrow> bool" where
  "none rs = (rankset_value rs = 0)"

definition any :: "RankSet \<Rightarrow> bool" where
  "any rs = (rankset_value rs \<noteq> 0)"

text \<open>
  The row of the priority table is an array of
  \<^verbatim>\<open>Rank::max() - Rank::min() + 1\<close> = 13 bytes, indexed by \<^verbatim>\<open>r - Rank::min()\<close>
  (the conversion of \<open>r\<close> to a number checks it).
\<close>

function priority_loop :: "RankSet \<Rightarrow> uchar \<Rightarrow> uchar \<Rightarrow> uchar list \<Rightarrow> uchar list option" where
  "priority_loop rs r ord row =
     (if r \<ge> Rank_min then
        (case test rs (Rank r) of
           None \<Rightarrow> None
         | Some b \<Rightarrow>
             (case rank_toNumber (Rank r) of
                None \<Rightarrow> None
              | Some n \<Rightarrow>
                  if b then
                    priority_loop rs (r - 1) (ord + 1)
                      (row[nat (uint n - uint Rank_min) := ord + 1])
                  else
                    priority_loop rs (r - 1) ord
                      (row[nat (uint n - uint Rank_min) := 0])))
      else Some row)"
  by pat_completeness auto
termination
  by (relation "measure (\<lambda>(rs, r, ord, row). unat r)")
     (auto simp: Rank_min_def rank_minValue_def word_le_nat_alt unat_minus_one
        unat_eq_0 [symmetric] simp del: unat_eq_0)

definition priorityIfInHand :: "RankSet \<Rightarrow> Rank \<Rightarrow> Priority option" where
  "priorityIfInHand rs rank =
     (if \<not> rankset_checkValid rs then None
      else (case rank_toNumber rank of
              None \<Rightarrow> None
            | Some rankValue \<Rightarrow>
                if uint rankValue < 2 then Some priority_nullopt
                else (case priority_loop rs Rank_max 0
                             (replicate (nat (uint Rank_max - uint Rank_min + 1)) 0) of
                        None \<Rightarrow> None
                      | Some row \<Rightarrow>
                          (let temp = row ! nat (uint rankValue - uint Rank_min)
                           in if temp = 0 then Some priority_nullopt
                              else Priority_of_uchar temp))))"

text \<open>\<^verbatim>\<open>Priority priority(Rank const & rank) const { return *priorityIfInHand(rank); }\<close>\<close>

definition priority :: "RankSet \<Rightarrow> Rank \<Rightarrow> Priority option" where
  "priority rs rank =
     (case priorityIfInHand rs rank of None \<Rightarrow> None | Some p \<Rightarrow> priority_deref p)"

subsection \<open>Mutating operators\<close>

text \<open>
  Each operator checks \<^verbatim>\<open>*this\<close>, updates \<^verbatim>\<open>value\<close> and returns \<^verbatim>\<open>*this\<close>; the
  model returns the updated RankSet.  The operands are promoted to \<^verbatim>\<open>int\<close> and the
  result is truncated to 16 bits on assignment, which for \<open>AND\<close>, \<open>OR\<close>, \<open>XOR\<close> and
  \<open>NOT\<close> is the operation on 16-bit words.
\<close>

definition or_assign :: "RankSet \<Rightarrow> RankSet \<Rightarrow> RankSet option" where
  "or_assign rs other =
     (if \<not> rankset_checkValid rs then None
      else (case rankset_toNumber other of
              None \<Rightarrow> None
            | Some n \<Rightarrow> Some (RankSet (rankset_value rs OR n))))"

definition and_assign :: "RankSet \<Rightarrow> RankSet \<Rightarrow> RankSet option" where
  "and_assign rs other =
     (if \<not> rankset_checkValid rs then None
      else (case rankset_toNumber other of
              None \<Rightarrow> None
            | Some n \<Rightarrow> Some (RankSet (rankset_value rs AND n))))"

definition xor_assign :: "RankSet \<Rightarrow> RankSet \<Rightarrow> RankSet option" where
  "xor_assign rs other =
     (if \<not> rankset_checkValid rs then None
      else (case rankset_toNumber other of
              None \<Rightarrow> None
            | Some n \<Rightarrow> Some (RankSet (rankset_value rs XOR n))))"

definition reset_rank :: "RankSet \<Rightarrow> Rank \<Rightarrow> RankSet option" where
  "reset_rank rs rank =
     (if \<not> rankset_checkValid rs then None
      else (case bitMask rank of
              None \<Rightarrow> None
            | Some m \<Rightarrow> Some (RankSet (rankset_value rs AND NOT m))))"

definition reset_all :: "RankSet \<Rightarrow> RankSet option" where
  "reset_all rs = (if \<not> rankset_checkValid rs then None else Some (RankSet 0))"

definition set_rank :: "RankSet \<Rightarrow> Rank \<Rightarrow> RankSet option" where
  "set_rank rs rank =
     (if \<not> rankset_checkValid rs then None
      else (case bitMask rank of
              None \<Rightarrow> None
            | Some m \<Rightarrow> Some (RankSet (rankset_value rs OR m))))"

definition set_all :: "RankSet \<Rightarrow> RankSet option" where
  "set_all rs = (if \<not> rankset_checkValid rs then None else Some (RankSet RankSet_max))"

definition flip_rank :: "RankSet \<Rightarrow> Rank \<Rightarrow> RankSet option" where
  "flip_rank rs rank =
     (if \<not> rankset_checkValid rs then None
      else (case bitMask rank of
              None \<Rightarrow> None
            | Some m \<Rightarrow> Some (RankSet (rankset_value rs XOR m))))"

definition flip_all :: "RankSet \<Rightarrow> RankSet option" where
  "flip_all rs =
     (if \<not> rankset_checkValid rs then None
      else Some (RankSet (NOT (rankset_value rs) AND RankSet_max)))"

text \<open>\<^verbatim>\<open>operator~\<close> builds its result with the checked constructor.\<close>

definition complement :: "RankSet \<Rightarrow> RankSet option" where
  "complement rs =
     (if \<not> rankset_checkValid rs then None
      else RankSet_of_ushort (NOT (rankset_value rs) AND RankSet_max))"

text \<open>
  The asserting operators.  \<^verbatim>\<open>operator-= (RankSet const & other)\<close> asserts
  \<^verbatim>\<open>(other.value & value) == other.value\<close>, \<^verbatim>\<open>operator+= (RankSet const & other)\<close>
  asserts \<^verbatim>\<open>!(other.value & value)\<close>, \<^verbatim>\<open>operator-= (Rank const & rank)\<close> asserts
  \<^verbatim>\<open>rank.bitMask() & value\<close> and \<^verbatim>\<open>operator+= (Rank const & rank)\<close> asserts
  \<^verbatim>\<open>!(rank.bitMask() & value)\<close>.
\<close>

definition minus_assign :: "RankSet \<Rightarrow> RankSet \<Rightarrow> RankSet option" where
  "minus_assign rs other =
     (if \<not> rankset_checkValid rs then None
      else if rankset_value other AND rankset_value rs \<noteq> rankset_value other then None
      else (case rankset_toNumber other of
              None \<Rightarrow> None
            | Some n \<Rightarrow> Some (RankSet (rankset_value rs AND NOT n))))"

definition plus_assign :: "RankSet \<Rightarrow> RankSet \<Rightarrow> RankSet option" where
  "plus_assign rs other =
     (if \<not> rankset_checkValid rs then None
      else if rankset_value other AND rankset_value rs \<noteq> 0 then None
      else (case rankset_toNumber other of
              None \<Rightarrow> None
            | Some n \<Rightarrow> Some (RankSet (rankset_value rs OR n))))"

definition minus_assign_rank :: "RankSet \<Rightarrow> Rank \<Rightarrow> RankSet option" where
  "minus_assign_rank rs rank =
     (if \<not> rankset_checkValid rs then None
      else (case bitMask rank of
              None \<Rightarrow> None
            | Some m \<Rightarrow>
                if m AND rankset_value rs = 0 then None
                else Some (RankSet (rankset_value rs AND NOT m))))"

definition plus_assign_rank :: "RankSet \<Rightarrow> Rank \<Rightarrow> RankSet option" where
  "plus_assign_rank rs rank =
     (if \<not> rankset_checkValid rs then None
      else (case bitMask rank of
              None \<Rightarrow> None
            | Some m \<Rightarrow>
                if m AND rankset_value rs \<noteq> 0 then None
                else Some (RankSet (rankset_value rs OR m))))"

subsection \<open>winRanks\<close>

text \<open>
  The row of \<^verbatim>\<open>winRanksData\<close> for \<open>rs\<close> and \<open>lw\<close> (an \<^verbatim>\<open>int\<close> from 1 to 13):
  \<^verbatim>\<open>nextBitNo\<close> is an \<^verbatim>\<open>unsigned short\<close> starting at 1, \<^verbatim>\<open>result\<close> starts as the
  empty RankSet, ranks are added with the asserting \<^verbatim>\<open>result += r\<close>, and the loop
  breaks at the first present rank beyond the \<open>lw\<close>-th.
\<close>

function winRanks_loop :: "RankSet \<Rightarrow> int \<Rightarrow> uchar \<Rightarrow> ushort \<Rightarrow> RankSet \<Rightarrow> RankSet option" where
  "winRanks_loop rs lw r nextBitNo result =
     (if r \<ge> Rank_min then
        (case test rs (Rank r) of
           None \<Rightarrow> None
         | Some b \<Rightarrow>
             if b then
               (if uint nextBitNo \<le> lw then
                  (case plus_assign_rank result (Rank r) of
                     None \<Rightarrow> None
                   | Some result' \<Rightarrow> winRanks_loop rs lw (r - 1) (nextBitNo + 1) result')
                else Some result)
             else winRanks_loop rs lw (r - 1) nextBitNo result)
      else Some result)"
  by pat_completeness auto
termination
  by (relation "measure (\<lambda>(rs, lw, r, nextBitNo, result). unat r)")
     (auto simp: Rank_min_def rank_minValue_def word_le_nat_alt unat_minus_one
        unat_eq_0 [symmetric] simp del: unat_eq_0)

text \<open>
  \<^verbatim>\<open>winRanks(unsigned char leastWin)\<close>: the empty RankSet for 0, otherwise
  \<^verbatim>\<open>assert(leastWin < 14)\<close> and the entry \<^verbatim>\<open>winRanksData[value][leastWin - 1]\<close>.
\<close>

definition winRanks :: "RankSet \<Rightarrow> uchar \<Rightarrow> RankSet option" where
  "winRanks rs leastWin =
     (if \<not> rankset_checkValid rs then None
      else if leastWin = 0 then RankSet_of_ushort 0
      else if \<not> leastWin < 14 then None
      else winRanks_loop rs (uint leastWin) Rank_max 1 RankSet_empty)"

section \<open>The members of a RankSet, as a list\<close>

text \<open>
  Specification-level views of a RankSet, used to state the results: the rank numbers
  from \<open>n\<close> down to 2, whether the bit of rank number \<open>n\<close> is set, the thirteen
  Ranks from Ace down to Deuce, and the members of a RankSet in that order, found
  with \<^verbatim>\<open>test\<close>.  The \<open>k\<close>-th highest member of \<open>rs\<close> is \<open>members rs ! (k - 1)\<close>.
\<close>

definition down :: "nat \<Rightarrow> nat list" where
  "down n = rev [2..<Suc n]"

definition present :: "RankSet \<Rightarrow> nat \<Rightarrow> bool" where
  "present rs n = bit (rankset_value rs) (n - 2)"

definition all_ranks_desc :: "Rank list" where
  "all_ranks_desc = map Rank [14, 13, 12, 11, 10, 9, 8, 7, 6, 5, 4, 3, 2]"

definition members :: "RankSet \<Rightarrow> Rank list" where
  "members rs = filter (\<lambda>r. test rs r = Some True) all_ranks_desc"

text \<open>The loop equations are unfolded by hand, one iteration at a time.\<close>

declare highestRank_loop.simps [simp del] count_loop.simps [simp del]
  priority_loop.simps [simp del] winRanks_loop.simps [simp del]

section \<open>Results on Strain, Direction and Position\<close>

text \<open>
  Claim C1.  The claim: the operators \<open><\<close>, \<open><=\<close>, \<open>>\<close> and \<open>>=\<close> of Strain make
  NoTrump the maximum, so for every suit \<open>s\<close> the comparisons \<open>s < NoTrump\<close>,
  \<open>NoTrump > s\<close>, \<open>NoTrump >= s\<close> and \<open>s <= NoTrump\<close> are all true.
  What the code does: each operator guards only one side for the value 4 and falls
  through to the reversed numeric comparison on the other side, so for each of the four
  suits all four comparisons against NoTrump return false.  (Among the four suits
  themselves the stronger suit does compare greater, and nothing compares greater
  than NoTrump.)
\<close>

theorem strain_order_NoTrump_not_above_suits:
  "list_all (\<lambda>s. strain_lt s NoTrump = False \<and> strain_gt NoTrump s = False
                 \<and> strain_ge NoTrump s = False \<and> strain_le s NoTrump = False)
     [Spades, Hearts, Diamonds, Clubs]
   \<and> strain_gt Spades Hearts \<and> strain_gt Hearts Diamonds \<and> strain_gt Diamonds Clubs
   \<and> list_all (\<lambda>s. strain_gt s NoTrump = False \<and> strain_lt NoTrump s = False)
     [Spades, Hearts, Diamonds, Clubs, NoTrump]"
  by (simp add: strain_lt_def strain_gt_def strain_ge_def strain_le_def
      Spades_def Hearts_def Diamonds_def Clubs_def NoTrump_def
      word_le_nat_alt word_less_nat_alt)

text \<open>
  Claim C2.  The claim: for valid Directions \<open>leading\<close> and \<open>relative\<close>,
  \<open>leading + Position(leading, relative)\<close> is \<open>relative\<close>.
  What the code does: the two-Direction constructor stores the sum of the two seat
  numbers (mod 4) instead of their difference, so with East leading and North as the
  relative seat the Position is Second, and East + Second is South, not North.
  The other half of the claim, that \<open>d + p\<close> has the number of \<open>d\<close> plus the number
  of \<open>p\<close> modulo 4, holds: see \<open>direction_plus_number\<close> below.
\<close>

theorem position_of_directions_East_North:
  "Position_of_directions East North = Some (Position 1)
   \<and> direction_plus East (Position 1) = Some South
   \<and> South \<noteq> North"
  by (simp add: Position_of_directions_def direction_plus_def direction_toNumber_def
      position_toNumber_def Position_of_uchar_def Direction_of_uchar_def
      direction_checkValid_def position_checkValid_def
      North_def East_def South_def)

text \<open>
  Claim C3.  The claim: \<open>a != b\<close> holds exactly when \<open>a == b\<close> does not.
  What the code does: \<^verbatim>\<open>operator!=\<close> returns \<^verbatim>\<open>value == rhs.value\<close>, the body of
  \<^verbatim>\<open>operator==\<close>, so the two operators always agree.
\<close>

theorem strain_ne_is_strain_eq:
  "strain_ne a b = strain_eq a b
   \<and> strain_ne Spades Hearts = False \<and> strain_ne Spades Spades = True"
  by (simp add: strain_ne_def strain_eq_def Spades_def Hearts_def)

text \<open>
  Claim C4.  The claim: \<^verbatim>\<open>Strain::lowToHigh()\<close> lists each of the five strains once
  and is the reverse of \<^verbatim>\<open>Strain::highToLow()\<close>.
  What the code does: the list is Spades, Clubs, Diamonds, Hearts, Spades; Spades
  occurs twice, NoTrump does not occur, and the list differs from the reverse of
  \<^verbatim>\<open>highToLow()\<close>, which is Clubs, Diamonds, Hearts, Spades, NoTrump.  The sibling
  \<^verbatim>\<open>Suit::lowToHigh()\<close> is the reverse of \<^verbatim>\<open>Suit::highToLow()\<close>.
\<close>

theorem Strain_lowToHigh_repeats_Spades:
  "Strain_lowToHigh = [Some Spades, Some Clubs, Some Diamonds, Some Hearts, Some Spades]
   \<and> rev Strain_highToLow = [Some Clubs, Some Diamonds, Some Hearts, Some Spades, Some NoTrump]
   \<and> \<not> distinct Strain_lowToHigh
   \<and> Some NoTrump \<notin> set Strain_lowToHigh
   \<and> Strain_lowToHigh \<noteq> rev Strain_highToLow
   \<and> Suit_lowToHigh = rev Suit_highToLow"
  by (simp add: Strain_lowToHigh_def Strain_highToLow_def Suit_lowToHigh_def
      Suit_highToLow_def StrainT_of_uchar_def strain_checkValid_def
      strain_optionalValue_def strain_maxValue_def
      Spades_def Hearts_def Diamonds_def Clubs_def NoTrump_def)

subsection \<open>What Direction + Position computes\<close>

text \<open>
  \<^verbatim>\<open>Direction::operator+\<close> itself adds the two numbers modulo 4.  With the Position
  built by the two-Direction constructor, the sum is twice the leading seat plus the
  relative seat, modulo 4.
\<close>

lemma seat_cases:
  assumes "(x::uchar) \<le> 3"
  shows "x \<in> {0, 1, 2, 3}"
proof -
  have "unat x \<in> {0, 1, 2, 3}" using assms by (simp add: word_le_nat_alt; arith)
  then have "of_nat (unat x) \<in> (of_nat ` {0, 1, 2, 3} :: uchar set)" by (rule imageI)
  then show ?thesis by simp
qed

lemma direction_plus_number:
  assumes "direction_checkValid d" and "position_checkValid p"
  shows "\<exists>d'. direction_plus d p = Some d' \<and> direction_checkValid d'
           \<and> unat (direction_value d') = (unat (direction_value d) + unat (position_value p)) mod 4"
proof -
  obtain x where d: "d = Direction x" by (cases d)
  obtain y where p: "p = Position y" by (cases p)
  have x: "x \<in> {0, 1, 2, 3}" using assms(1) d seat_cases [of x] by (simp add: direction_checkValid_def)
  have y: "y \<in> {0, 1, 2, 3}" using assms(2) p seat_cases [of y] by (simp add: position_checkValid_def)
  show ?thesis
    using x y unfolding d p
    by (elim insertE emptyE)
       (simp_all add: direction_plus_def position_toNumber_def Direction_of_uchar_def
          direction_checkValid_def position_checkValid_def)
qed

lemma position_round_trip_number:
  assumes "direction_checkValid leading" and "direction_checkValid relative"
  shows "\<exists>p d'. Position_of_directions leading relative = Some p
           \<and> direction_plus leading p = Some d'
           \<and> unat (direction_value d')
               = (2 * unat (direction_value leading) + unat (direction_value relative)) mod 4"
proof -
  obtain x where l: "leading = Direction x" by (cases leading)
  obtain y where r: "relative = Direction y" by (cases relative)
  have x: "x \<in> {0, 1, 2, 3}" using assms(1) l seat_cases [of x] by (simp add: direction_checkValid_def)
  have y: "y \<in> {0, 1, 2, 3}" using assms(2) r seat_cases [of y] by (simp add: direction_checkValid_def)
  show ?thesis
    using x y unfolding l r
    by (elim insertE emptyE)
       (simp_all add: Position_of_directions_def direction_plus_def direction_toNumber_def
          position_toNumber_def Position_of_uchar_def Direction_of_uchar_def
          direction_checkValid_def position_checkValid_def)
qed

section \<open>Auxiliary facts on ranks, bits and the table loops\<close>

text \<open>
  For a valid RankSet each table loop is characterised through the list of rank numbers
  whose bit is set, from 14 down to 2.  Every loop lemma gives a result \<open>Some _\<close>: no
  assertion fails while a row is computed, so filling a table never aborts.
\<close>

lemma Rank_min_eq: "Rank_min = 2"
  by (simp add: Rank_min_def rank_minValue_def)

lemma Rank_max_eq: "Rank_max = 14"
  by (simp add: Rank_max_def rank_maxValue_def)

lemma RankSet_max_eq: "RankSet_max = 8191"
  by (simp add: RankSet_max_def Suit_numCards_def)

lemma rank_checkValid_iff: "rank_checkValid (Rank r) \<longleftrightarrow> 2 \<le> unat r \<and> unat r \<le> 14"
  by (auto simp: rank_checkValid_def rankT_checkValid_def rank_maxValue_def word_le_nat_alt
      word_unat_eq_iff)

lemma uchar_cases:
  assumes "2 \<le> unat (r::uchar)" "unat r \<le> 14"
  shows "r \<in> {2,3,4,5,6,7,8,9,10,11,12,13,14}"
proof -
  have "unat r \<in> {2,3,4,5,6,7,8,9,10,11,12,13,14}" using assms by (simp; arith)
  then have "of_nat (unat r) \<in> (of_nat ` {2,3,4,5,6,7,8,9,10,11,12,13,14} :: uchar set)"
    by (rule imageI)
  then show ?thesis by simp
qed

lemma bitMask_valid:
  assumes "2 \<le> unat r" "unat r \<le> 14"
  shows "bitMask (Rank r) = Some (2 ^ (unat r - 2))"
proof -
  have v: "rank_checkValid (Rank r)" using assms by (simp add: rank_checkValid_iff)
  from uchar_cases [OF assms] show ?thesis
    unfolding bitMask_def bitMaskRankData_def using v
    by (elim insertE emptyE) simp_all
qed

lemma test_valid:
  assumes "rankset_checkValid rs" "2 \<le> unat r" "unat r \<le> 14"
  shows "test rs (Rank r) = Some (bit (rankset_value rs) (unat r - 2))"
  using assms by (simp add: test_def bitMask_valid and_exp_eq_0_iff_not_bit)

lemma down_step: "2 \<le> n \<Longrightarrow> down n = n # down (n - 1)"
  by (cases n) (simp_all add: down_def)

lemma down_stop: "n < 2 \<Longrightarrow> down n = []"
  by (simp add: down_def)

lemma unat_pred: "2 \<le> unat (r::uchar) \<Longrightarrow> unat (r - 1) = unat r - 1"
  by (simp add: unat_minus_one unat_eq_0 [symmetric] del: unat_eq_0)

lemma test_present:
  "rankset_checkValid rs \<Longrightarrow> 2 \<le> unat r \<Longrightarrow> unat r \<le> 14 \<Longrightarrow>
   test rs (Rank r) = Some (present rs (unat r))"
  by (simp add: test_valid present_def)

lemma count_loop_eq:
  "rankset_checkValid rs \<Longrightarrow> unat r \<le> 14 \<Longrightarrow>
   count_loop rs r acc = Some (acc + of_nat (length (filter (present rs) (down (unat r)))))"
proof (induction rs r acc rule: count_loop.induct)
  case (1 rs r result)
  show ?case
  proof (cases "2 \<le> unat r")
    case True
    have t: "test rs (Rank r) = Some (present rs (unat r))"
      using 1 True by (simp add: test_present)
    have le: "Rank_min \<le> r" using True by (simp add: Rank_min_eq word_le_nat_alt)
    have IH: "count_loop rs (r - 1) (if present rs (unat r) then result + 1 else result)
        = Some ((if present rs (unat r) then result + 1 else result)
                + of_nat (length (filter (present rs) (down (unat r - 1)))))"
      using "1.IH" [OF le t] "1.prems" True by (simp add: unat_pred)
    show ?thesis
      by (subst count_loop.simps) (simp add: le t IH down_step [OF True])
  next
    case False
    then have "\<not> Rank_min \<le> r" by (simp add: Rank_min_eq word_le_nat_alt)
    then show ?thesis using False
      by (subst count_loop.simps) (simp add: down_stop)
  qed
qed

lemma count_eq:
  "rankset_checkValid rs \<Longrightarrow>
   count rs = Some (of_nat (length (filter (present rs) (down 14))))"
  by (simp add: count_def count_loop_eq Rank_max_eq)

lemma highestRank_loop_eq:
  "rankset_checkValid rs \<Longrightarrow> unat r \<le> 14 \<Longrightarrow>
   highestRank_loop rs r =
     Some (case filter (present rs) (down (unat r)) of
             [] \<Rightarrow> rank_nullopt | n # _ \<Rightarrow> Rank (of_nat n))"
proof (induction rs r rule: highestRank_loop.induct)
  case (1 rs r)
  show ?case
  proof (cases "2 \<le> unat r")
    case True
    have t: "test rs (Rank r) = Some (present rs (unat r))"
      using 1 True by (simp add: test_present)
    have le: "Rank_min \<le> r" using True by (simp add: Rank_min_eq word_le_nat_alt)
    show ?thesis
    proof (cases "present rs (unat r)")
      case True
      then show ?thesis
        by (subst highestRank_loop.simps) (simp add: le t down_step [OF \<open>2 \<le> unat r\<close>])
    next
      case False
      have "highestRank_loop rs (r - 1) =
        Some (case filter (present rs) (down (unat r - 1)) of
             [] \<Rightarrow> rank_nullopt | n # _ \<Rightarrow> Rank (of_nat n))"
        using "1.IH" [OF le t] False "1.prems" \<open>2 \<le> unat r\<close> by (simp add: unat_pred)
      then show ?thesis using False
        by (subst highestRank_loop.simps) (simp add: le t down_step [OF \<open>2 \<le> unat r\<close>])
    qed
  next
    case False
    then have "\<not> Rank_min \<le> r" by (simp add: Rank_min_eq word_le_nat_alt)
    then show ?thesis using False
      by (subst highestRank_loop.simps) (simp add: down_stop)
  qed
qed

lemma down_14: "down 14 = [14, 13, 12, 11, 10, 9, 8, 7, 6, 5, 4, 3, 2]"
  by (simp add: down_def upt_conv_Cons)

lemma down_set: "n \<in> set (down m) \<longleftrightarrow> 2 \<le> n \<and> n \<le> m"
  by (auto simp: down_def)

lemma down_distinct: "distinct (down m)"
  by (simp add: down_def)

lemma length_filter_down: "length (filter P (down 14)) \<le> 13"
proof -
  have "length (filter P (down 14)) \<le> length (down 14)" by (rule length_filter_le)
  then show ?thesis by (simp add: down_14)
qed

lemma all_ranks_desc_down: "all_ranks_desc = map (\<lambda>n. Rank (of_nat n)) (down 14)"
  by (simp add: all_ranks_desc_def down_14)

lemma test_present_nat:
  assumes "rankset_checkValid rs" "2 \<le> n" "n \<le> 14"
  shows "test rs (Rank (of_nat n)) = Some (present rs n)"
proof -
  have "unat (of_nat n :: uchar) = n" using assms by (simp add: unat_of_nat)
  then show ?thesis using test_present [of rs "of_nat n"] assms by simp
qed

lemma members_eq:
  assumes "rankset_checkValid rs"
  shows "members rs = map (\<lambda>n. Rank (of_nat n)) (filter (present rs) (down 14))"
proof -
  have "filter ((\<lambda>r. test rs r = Some True) \<circ> (\<lambda>n. Rank (of_nat n))) (down 14)
        = filter (present rs) (down 14)"
    by (rule filter_cong [OF refl]) (simp add: down_set test_present_nat assms)
  then show ?thesis
    by (simp add: members_def all_ranks_desc_down filter_map)
qed

lemma count_members:
  "rankset_checkValid rs \<Longrightarrow> count rs = Some (of_nat (length (members rs)))"
  by (simp add: count_eq members_eq)

lemma length_members: "rankset_checkValid rs \<Longrightarrow> length (members rs) \<le> 13"
  by (simp add: members_eq length_filter_down)

lemma length_filter_insert:
  "distinct xs \<Longrightarrow> x \<in> set xs \<Longrightarrow> \<not> P x \<Longrightarrow>
   length (filter (\<lambda>y. P y \<or> y = x) xs) = Suc (length (filter P xs))"
proof (induction xs)
  case Nil
  then show ?case by simp
next
  case (Cons a xs)
  show ?case
  proof (cases "a = x")
    case True
    then have "x \<notin> set xs" using Cons.prems by simp
    then have "filter (\<lambda>y. P y \<or> y = x) xs = filter P xs"
      by (intro filter_cong) auto
    then show ?thesis using True Cons.prems by simp
  next
    case False
    then show ?thesis using Cons by auto
  qed
qed

lemma length_filter_remove:
  "distinct xs \<Longrightarrow> x \<in> set xs \<Longrightarrow> P x \<Longrightarrow>
   Suc (length (filter (\<lambda>y. P y \<and> y \<noteq> x) xs)) = length (filter P xs)"
proof (induction xs)
  case Nil
  then show ?case by simp
next
  case (Cons a xs)
  show ?case
  proof (cases "a = x")
    case True
    then have "x \<notin> set xs" using Cons.prems by simp
    then have "filter (\<lambda>y. P y \<and> y \<noteq> x) xs = filter P xs"
      by (intro filter_cong) auto
    then show ?thesis using True Cons.prems by simp
  next
    case False
    then show ?thesis using Cons by auto
  qed
qed

lemma valid_take_bit: "rankset_checkValid rs \<longleftrightarrow> take_bit 13 (rankset_value rs) = rankset_value rs"
proof -
  have "rankset_checkValid rs \<longleftrightarrow> rankset_value rs < 2 ^ 13"
    by (simp add: rankset_checkValid_def RankSet_max_eq word_le_nat_alt word_less_nat_alt) arith
  also have "\<dots> \<longleftrightarrow> rankset_value rs AND mask 13 = rankset_value rs"
    by (simp add: mask_eq_iff_w2p word_size)
  finally show ?thesis by (simp add: take_bit_eq_mask)
qed

lemma valid_bits: "rankset_checkValid rs \<longleftrightarrow> (\<forall>i. bit (rankset_value rs) i \<longrightarrow> i < 13)"
proof
  assume "rankset_checkValid rs"
  then have e: "take_bit 13 (rankset_value rs) = rankset_value rs" by (simp add: valid_take_bit)
  show "\<forall>i. bit (rankset_value rs) i \<longrightarrow> i < 13"
  proof (intro allI impI)
    fix i assume "bit (rankset_value rs) i"
    then have "bit (take_bit 13 (rankset_value rs)) i" by (simp only: e)
    then show "i < 13" by (simp add: bit_take_bit_iff)
  qed
next
  assume a: "\<forall>i. bit (rankset_value rs) i \<longrightarrow> i < 13"
  have "take_bit 13 (rankset_value rs) = rankset_value rs"
    by (rule bit_eqI) (use a in \<open>auto simp: bit_take_bit_iff\<close>)
  then show "rankset_checkValid rs" by (simp add: valid_take_bit)
qed

lemma rank_valid_cases:
  assumes "rank_checkValid r"
  obtains w where "r = Rank w" "2 \<le> unat w" "unat w \<le> 14"
  using assms by (cases r) (simp add: rank_checkValid_iff)

lemma unat_count: "m \<le> 14 \<Longrightarrow> unat (of_nat m :: uchar) = m"
  by (simp add: unat_of_nat)

lemma present_or:
  assumes "2 \<le> n" "n \<le> 14" "2 \<le> k" "k \<le> 14"
  shows "present (RankSet (rankset_value rs OR 2 ^ (k - 2))) n \<longleftrightarrow> present rs n \<or> n = k"
  using assms by (auto simp: present_def bit_or_iff bit_exp_iff)

lemma present_and_not:
  assumes "2 \<le> n" "n \<le> 14" "2 \<le> k" "k \<le> 14"
  shows "present (RankSet (rankset_value rs AND NOT (2 ^ (k - 2)))) n \<longleftrightarrow> present rs n \<and> n \<noteq> k"
  using assms by (auto simp: present_def bit_and_iff bit_not_iff bit_exp_iff)

lemma valid_or:
  assumes "rankset_checkValid rs" "k \<le> 14"
  shows "rankset_checkValid (RankSet (rankset_value rs OR 2 ^ (k - 2)))"
  using assms by (auto simp: valid_bits bit_or_iff bit_exp_iff)

lemma valid_and:
  assumes "rankset_checkValid rs"
  shows "rankset_checkValid (RankSet (rankset_value rs AND w))"
  using assms by (auto simp: valid_bits bit_and_iff)

lemma valid_xor:
  assumes "rankset_checkValid rs" "rankset_checkValid (RankSet w)"
  shows "rankset_checkValid (RankSet (rankset_value rs XOR w))"
  using assms by (auto simp: valid_bits bit_xor_iff)

lemma valid_or2:
  assumes "rankset_checkValid rs" "rankset_checkValid (RankSet w)"
  shows "rankset_checkValid (RankSet (rankset_value rs OR w))"
  using assms by (auto simp: valid_bits bit_or_iff)

lemma valid_exp:
  assumes "k \<le> 14"
  shows "rankset_checkValid (RankSet (2 ^ (k - 2)))"
  using assms by (auto simp: valid_bits bit_exp_iff)

lemma valid_not_and_max:
  "rankset_checkValid (RankSet (NOT w AND RankSet_max))"
proof -
  have e: "RankSet_max = mask 13" by (simp add: RankSet_max_eq mask_eq_exp_minus_1)
  show ?thesis unfolding e by (simp add: valid_bits bit_and_iff bit_mask_iff)
qed

lemma count_set_rank:
  assumes v: "rankset_checkValid S" and w: "2 \<le> unat w" "unat w \<le> 14"
    and a: "\<not> present S (unat w)"
  shows "count (RankSet (rankset_value S OR 2 ^ (unat w - 2)))
         = Some (of_nat (Suc (length (filter (present S) (down 14)))))"
proof -
  let ?S' = "RankSet (rankset_value S OR 2 ^ (unat w - 2))"
  have v': "rankset_checkValid ?S'" using v w by (simp add: valid_or)
  have "filter (present ?S') (down 14) = filter (\<lambda>n. present S n \<or> n = unat w) (down 14)"
    by (rule filter_cong [OF refl]) (simp add: down_set present_or w)
  then have "length (filter (present ?S') (down 14)) = Suc (length (filter (present S) (down 14)))"
    using length_filter_insert [of "down 14" "unat w" "present S"] a w
    by (simp add: down_distinct down_set)
  then show ?thesis by (simp add: count_eq [OF v'])
qed

lemma count_reset_rank:
  assumes v: "rankset_checkValid S" and w: "2 \<le> unat w" "unat w \<le> 14"
    and a: "present S (unat w)"
  shows "\<exists>m. count (RankSet (rankset_value S AND NOT (2 ^ (unat w - 2)))) = Some (of_nat m)
           \<and> Suc m = length (filter (present S) (down 14))"
proof -
  let ?S' = "RankSet (rankset_value S AND NOT (2 ^ (unat w - 2)))"
  have v': "rankset_checkValid ?S'" using v by (simp add: valid_and)
  have "filter (present ?S') (down 14) = filter (\<lambda>n. present S n \<and> n \<noteq> unat w) (down 14)"
    by (rule filter_cong [OF refl]) (simp add: down_set present_and_not w)
  then have "Suc (length (filter (present ?S') (down 14))) = length (filter (present S) (down 14))"
    using length_filter_remove [of "down 14" "unat w" "present S"] a w
    by (simp add: down_distinct down_set)
  then show ?thesis unfolding count_eq [OF v'] by blast
qed

text \<open>
  Claim C7.  For every valid RankSet \<open>S\<close> and valid Rank \<open>r\<close>: if \<open>r\<close> is not in \<open>S\<close>
  then \<^verbatim>\<open>S.set(r)\<close> returns a RankSet whose count is the count of \<open>S\<close> plus one and
  in which \<^verbatim>\<open>test(r)\<close> holds; if \<open>r\<close> is in \<open>S\<close> then \<^verbatim>\<open>S.reset(r)\<close> returns a
  RankSet whose count is the count of \<open>S\<close> minus one (and the count of \<open>S\<close> is at
  least one).  The counts are read as numbers, so no wrap-around is hidden.
\<close>

theorem set_reset_count:
  assumes "rankset_checkValid S" and "rank_checkValid r"
  shows "(test S r = Some False \<longrightarrow>
            (\<exists>S' c c'. set_rank S r = Some S' \<and> count S = Some c \<and> count S' = Some c'
                 \<and> unat c' = unat c + 1 \<and> test S' r = Some True))
       \<and> (test S r = Some True \<longrightarrow>
            (\<exists>S' c c'. reset_rank S r = Some S' \<and> count S = Some c \<and> count S' = Some c'
                 \<and> unat c' = unat c - 1 \<and> 1 \<le> unat c))"
proof -
  from assms(2) obtain w where r: "r = Rank w" and w: "2 \<le> unat w" "unat w \<le> 14"
    by (rule rank_valid_cases)
  note v = assms(1)
  let ?n = "length (filter (present S) (down 14))"
  have n: "?n \<le> 13" by (rule length_filter_down)
  have t: "test S r = Some (present S (unat w))" using v w r by (simp add: test_present)
  have cS: "count S = Some (of_nat ?n)" by (rule count_eq [OF v])
  have m: "bitMask r = Some (2 ^ (unat w - 2))" using w r by (simp add: bitMask_valid)
  have 1: "\<exists>S' c c'. set_rank S r = Some S' \<and> count S = Some c \<and> count S' = Some c'
                 \<and> unat c' = unat c + 1 \<and> test S' r = Some True"
    if a: "\<not> present S (unat w)"
  proof -
    let ?S' = "RankSet (rankset_value S OR 2 ^ (unat w - 2))"
    have s: "set_rank S r = Some ?S'" using v m by (simp add: set_rank_def)
    have v': "rankset_checkValid ?S'" using v w by (simp add: valid_or)
    have c': "count ?S' = Some (of_nat (Suc ?n))" by (rule count_set_rank [OF v w a])
    have t': "test ?S' r = Some True"
      using v' w r by (simp add: test_present present_or)
    have "unat (of_nat (Suc ?n) :: uchar) = unat (of_nat ?n :: uchar) + 1"
      using n by (simp add: unat_count del: of_nat_Suc)
    then show ?thesis using s cS c' t' by blast
  qed
  have 2: "\<exists>S' c c'. reset_rank S r = Some S' \<and> count S = Some c \<and> count S' = Some c'
                 \<and> unat c' = unat c - 1 \<and> 1 \<le> unat c"
    if a: "present S (unat w)"
  proof -
    let ?S' = "RankSet (rankset_value S AND NOT (2 ^ (unat w - 2)))"
    have s: "reset_rank S r = Some ?S'" using v m by (simp add: reset_rank_def)
    from count_reset_rank [OF v w a] obtain m where
      c': "count ?S' = Some (of_nat m)" and sm: "Suc m = ?n" by blast
    have "unat (of_nat m :: uchar) = unat (of_nat ?n :: uchar) - 1 \<and> 1 \<le> unat (of_nat ?n :: uchar)"
      using n sm by (simp add: unat_count)
    then show ?thesis using s cS c' by blast
  qed
  show ?thesis using 1 2 t by auto
qed

theorem set_reset_count_witness:
  "rankset_checkValid (RankSet 5) \<and> rank_checkValid (Rank 3) \<and> rank_checkValid (Rank 4)
   \<and> test (RankSet 5) (Rank 3) = Some False \<and> test (RankSet 5) (Rank 4) = Some True
   \<and> (\<exists>S' c c'. set_rank (RankSet 5) (Rank 3) = Some S' \<and> count (RankSet 5) = Some c
          \<and> count S' = Some c' \<and> unat c' = unat c + 1 \<and> test S' (Rank 3) = Some True)
   \<and> (\<exists>S' c c'. reset_rank (RankSet 5) (Rank 4) = Some S' \<and> count (RankSet 5) = Some c
          \<and> count S' = Some c' \<and> unat c' = unat c - 1 \<and> 1 \<le> unat c)"
proof -
  have v: "rankset_checkValid (RankSet 5)" by code_simp
  have r3: "rank_checkValid (Rank 3)" by code_simp
  have r4: "rank_checkValid (Rank 4)" by code_simp
  have t3: "test (RankSet 5) (Rank 3) = Some False" by code_simp
  have t4: "test (RankSet 5) (Rank 4) = Some True" by code_simp
  show ?thesis
    using set_reset_count [OF v r3] set_reset_count [OF v r4] v r3 r4 t3 t4 by simp
qed

text \<open>
  Claim C8.  For every valid RankSet \<open>S\<close> and valid Rank \<open>r\<close>: when \<open>r\<close> is absent,
  \<^verbatim>\<open>S += r\<close> does not fail and yields exactly \<^verbatim>\<open>S.set(r)\<close>, a set containing \<open>r\<close>;
  when \<open>r\<close> is present, \<^verbatim>\<open>S -= r\<close> does not fail and yields exactly
  \<^verbatim>\<open>S.reset(r)\<close>, a set without \<open>r\<close>.  The two kinds of operator are distinct: the
  plain \<^verbatim>\<open>set\<close> and \<^verbatim>\<open>reset\<close> never fail on a valid set and rank, whereas
  \<^verbatim>\<open>+=\<close> fails its assertion when \<open>r\<close> is present and \<^verbatim>\<open>-=\<close> when \<open>r\<close> is absent.
\<close>

theorem asserting_plus_minus:
  assumes "rankset_checkValid S" and "rank_checkValid r"
  shows "(test S r = Some False \<longrightarrow>
            plus_assign_rank S r = set_rank S r
            \<and> (\<exists>S'. plus_assign_rank S r = Some S' \<and> test S' r = Some True)
            \<and> minus_assign_rank S r = None)
       \<and> (test S r = Some True \<longrightarrow>
            minus_assign_rank S r = reset_rank S r
            \<and> (\<exists>S'. minus_assign_rank S r = Some S' \<and> test S' r = Some False)
            \<and> plus_assign_rank S r = None)
       \<and> (\<exists>S'. set_rank S r = Some S') \<and> (\<exists>S'. reset_rank S r = Some S')
       \<and> (test S r = Some False \<or> test S r = Some True)"
proof -
  from assms(2) obtain w where r: "r = Rank w" and w: "2 \<le> unat w" "unat w \<le> 14"
    by (rule rank_valid_cases)
  note v = assms(1)
  have m: "bitMask r = Some (2 ^ (unat w - 2))" using w r by (simp add: bitMask_valid)
  have t: "test S r = Some (present S (unat w))" using v w r by (simp add: test_present)
  have z: "(2 ^ (unat w - 2) AND rankset_value S = 0) \<longleftrightarrow> \<not> present S (unat w)"
    by (simp add: present_def and.commute and_exp_eq_0_iff_not_bit)
  have v1: "rankset_checkValid (RankSet (rankset_value S OR 2 ^ (unat w - 2)))"
    using v w by (simp add: valid_or)
  have v2: "rankset_checkValid (RankSet (rankset_value S AND NOT (2 ^ (unat w - 2))))"
    using v by (simp add: valid_and)
  have t1: "test (RankSet (rankset_value S OR 2 ^ (unat w - 2))) r = Some True"
    using v1 w r by (simp add: test_present present_or)
  have t2: "test (RankSet (rankset_value S AND NOT (2 ^ (unat w - 2)))) r = Some False"
    using v2 w r by (simp add: test_present present_and_not)
  show ?thesis
    using v m z t1 t2
    by (auto simp: t plus_assign_rank_def minus_assign_rank_def set_rank_def reset_rank_def)
qed

theorem asserting_plus_minus_witness:
  "rankset_checkValid (RankSet 5) \<and> rank_checkValid (Rank 3) \<and> rank_checkValid (Rank 4)
   \<and> test (RankSet 5) (Rank 3) = Some False \<and> test (RankSet 5) (Rank 4) = Some True
   \<and> plus_assign_rank (RankSet 5) (Rank 3) = set_rank (RankSet 5) (Rank 3)
   \<and> plus_assign_rank (RankSet 5) (Rank 3) = Some (RankSet 7)
   \<and> minus_assign_rank (RankSet 5) (Rank 3) = None
   \<and> minus_assign_rank (RankSet 5) (Rank 4) = reset_rank (RankSet 5) (Rank 4)
   \<and> minus_assign_rank (RankSet 5) (Rank 4) = Some (RankSet 1)
   \<and> plus_assign_rank (RankSet 5) (Rank 4) = None"
proof -
  have v: "rankset_checkValid (RankSet 5)" by code_simp
  have r3: "rank_checkValid (Rank 3)" by code_simp
  have r4: "rank_checkValid (Rank 4)" by code_simp
  have t3: "test (RankSet 5) (Rank 3) = Some False" by code_simp
  have t4: "test (RankSet 5) (Rank 4) = Some True" by code_simp
  have e3: "plus_assign_rank (RankSet 5) (Rank 3) = Some (RankSet 7)" by code_simp
  have e4: "minus_assign_rank (RankSet 5) (Rank 4) = Some (RankSet 1)" by code_simp
  show ?thesis
    using asserting_plus_minus [OF v r3] asserting_plus_minus [OF v r4] v r3 r4 t3 t4 e3 e4
    by simp
qed

text \<open>
  Claim C9.  For valid RankSets \<open>S\<close> and \<open>T\<close> and a valid Rank \<open>r\<close>, every mutating
  operation returns a RankSet whose value is at most \<^verbatim>\<open>RankSet::max()\<close> = 8191:
  \<^verbatim>\<open>set\<close>, \<^verbatim>\<open>reset\<close> and \<^verbatim>\<open>flip\<close> (of one rank and of all), \<^verbatim>\<open>~\<close>, \<^verbatim>\<open>|=\<close>,
  \<^verbatim>\<open>&=\<close> and \<^verbatim>\<open>^=\<close> always return such a set; \<^verbatim>\<open>+=\<close> and \<^verbatim>\<open>-=\<close> (of a Rank
  and of a RankSet) return such a set when their assertion holds and fail otherwise.
\<close>

theorem mutators_keep_valid:
  assumes "rankset_checkValid S" and "rankset_checkValid T" and "rank_checkValid r"
  shows "(\<exists>S'. set_rank S r = Some S' \<and> rankset_checkValid S')
       \<and> (\<exists>S'. reset_rank S r = Some S' \<and> rankset_checkValid S')
       \<and> (\<exists>S'. flip_rank S r = Some S' \<and> rankset_checkValid S')
       \<and> (\<exists>S'. set_all S = Some S' \<and> rankset_checkValid S')
       \<and> (\<exists>S'. reset_all S = Some S' \<and> rankset_checkValid S')
       \<and> (\<exists>S'. flip_all S = Some S' \<and> rankset_checkValid S')
       \<and> (\<exists>S'. complement S = Some S' \<and> rankset_checkValid S')
       \<and> (\<exists>S'. or_assign S T = Some S' \<and> rankset_checkValid S')
       \<and> (\<exists>S'. and_assign S T = Some S' \<and> rankset_checkValid S')
       \<and> (\<exists>S'. xor_assign S T = Some S' \<and> rankset_checkValid S')
       \<and> (if test S r = Some False
           then (\<exists>S'. plus_assign_rank S r = Some S' \<and> rankset_checkValid S')
           else plus_assign_rank S r = None)
       \<and> (if test S r = Some True
           then (\<exists>S'. minus_assign_rank S r = Some S' \<and> rankset_checkValid S')
           else minus_assign_rank S r = None)
       \<and> (if rankset_value T AND rankset_value S = 0
           then (\<exists>S'. plus_assign S T = Some S' \<and> rankset_checkValid S')
           else plus_assign S T = None)
       \<and> (if rankset_value T AND rankset_value S = rankset_value T
           then (\<exists>S'. minus_assign S T = Some S' \<and> rankset_checkValid S')
           else minus_assign S T = None)"
proof -
  from assms(3) obtain w where r: "r = Rank w" and w: "2 \<le> unat w" "unat w \<le> 14"
    by (rule rank_valid_cases)
  note v = assms(1) and vT = assms(2)
  have T: "rankset_checkValid (RankSet (rankset_value T))" using vT by simp
  have m: "bitMask r = Some (2 ^ (unat w - 2))" using w r by (simp add: bitMask_valid)
  have t: "test S r = Some (present S (unat w))" using v w r by (simp add: test_present)
  have z: "(2 ^ (unat w - 2) AND rankset_value S = 0) \<longleftrightarrow> \<not> present S (unat w)"
    by (simp add: present_def and.commute and_exp_eq_0_iff_not_bit)
  have e: "rankset_checkValid (RankSet (2 ^ (unat w - 2)))" using w by (simp add: valid_exp)
  have mx: "rankset_checkValid (RankSet RankSet_max)" by (simp add: rankset_checkValid_def)
  have z0: "rankset_checkValid (RankSet 0)" by (simp add: rankset_checkValid_def)
  have 1: "\<exists>S'. set_rank S r = Some S' \<and> rankset_checkValid S'"
    using v m w by (simp add: set_rank_def valid_or)
  have 2: "\<exists>S'. reset_rank S r = Some S' \<and> rankset_checkValid S'"
    using v m by (simp add: reset_rank_def valid_and)
  have 3: "\<exists>S'. flip_rank S r = Some S' \<and> rankset_checkValid S'"
    using v m e by (simp add: flip_rank_def valid_xor)
  have 4: "\<exists>S'. set_all S = Some S' \<and> rankset_checkValid S'"
    using v mx by (simp add: set_all_def)
  have 5: "\<exists>S'. reset_all S = Some S' \<and> rankset_checkValid S'"
    using v z0 by (simp add: reset_all_def)
  have 6: "\<exists>S'. flip_all S = Some S' \<and> rankset_checkValid S'"
    using v by (simp add: flip_all_def valid_not_and_max)
  have 7: "\<exists>S'. complement S = Some S' \<and> rankset_checkValid S'"
    using v by (simp add: complement_def RankSet_of_ushort_def valid_not_and_max)
  have 8: "\<exists>S'. or_assign S T = Some S' \<and> rankset_checkValid S'"
    using v vT T by (simp add: or_assign_def rankset_toNumber_def valid_or2)
  have 9: "\<exists>S'. and_assign S T = Some S' \<and> rankset_checkValid S'"
    using v vT by (simp add: and_assign_def rankset_toNumber_def valid_and)
  have 10: "\<exists>S'. xor_assign S T = Some S' \<and> rankset_checkValid S'"
    using v vT T by (simp add: xor_assign_def rankset_toNumber_def valid_xor)
  have 11: "if test S r = Some False
           then (\<exists>S'. plus_assign_rank S r = Some S' \<and> rankset_checkValid S')
           else plus_assign_rank S r = None"
    using v m w z by (simp add: t plus_assign_rank_def valid_or)
  have 12: "if test S r = Some True
           then (\<exists>S'. minus_assign_rank S r = Some S' \<and> rankset_checkValid S')
           else minus_assign_rank S r = None"
    using v m z by (simp add: t minus_assign_rank_def valid_and)
  have 13: "if rankset_value T AND rankset_value S = 0
           then (\<exists>S'. plus_assign S T = Some S' \<and> rankset_checkValid S')
           else plus_assign S T = None"
    using v vT T by (simp add: plus_assign_def rankset_toNumber_def valid_or2)
  have 14: "if rankset_value T AND rankset_value S = rankset_value T
           then (\<exists>S'. minus_assign S T = Some S' \<and> rankset_checkValid S')
           else minus_assign S T = None"
    using v vT by (simp add: minus_assign_def rankset_toNumber_def valid_and)
  show ?thesis
    by (intro conjI) (fact 1 2 3 4 5 6 7 8 9 10 11 12 13 14)+
qed

theorem mutators_keep_valid_witness:
  "rankset_checkValid (RankSet 5) \<and> rankset_checkValid (RankSet 6) \<and> rank_checkValid (Rank 3)
   \<and> (\<exists>S'. set_rank (RankSet 5) (Rank 3) = Some S' \<and> rankset_checkValid S')
   \<and> (\<exists>S'. reset_rank (RankSet 5) (Rank 3) = Some S' \<and> rankset_checkValid S')
   \<and> (\<exists>S'. flip_rank (RankSet 5) (Rank 3) = Some S' \<and> rankset_checkValid S')
   \<and> (\<exists>S'. flip_all (RankSet 5) = Some S' \<and> rankset_checkValid S')
   \<and> (\<exists>S'. complement (RankSet 5) = Some S' \<and> rankset_checkValid S')
   \<and> (\<exists>S'. or_assign (RankSet 5) (RankSet 6) = Some S' \<and> rankset_checkValid S')
   \<and> (\<exists>S'. and_assign (RankSet 5) (RankSet 6) = Some S' \<and> rankset_checkValid S')
   \<and> (\<exists>S'. xor_assign (RankSet 5) (RankSet 6) = Some S' \<and> rankset_checkValid S')
   \<and> (\<exists>S'. plus_assign_rank (RankSet 5) (Rank 3) = Some S' \<and> rankset_checkValid S')
   \<and> minus_assign_rank (RankSet 5) (Rank 3) = None
   \<and> plus_assign (RankSet 5) (RankSet 6) = None
   \<and> minus_assign (RankSet 5) (RankSet 6) = None
   \<and> complement (RankSet 5) = Some (RankSet 8186)"
proof -
  have v: "rankset_checkValid (RankSet 5)" by code_simp
  have vT: "rankset_checkValid (RankSet 6)" by code_simp
  have r3: "rank_checkValid (Rank 3)" by code_simp
  have t3: "test (RankSet 5) (Rank 3) = Some False" by code_simp
  have a: "(6::ushort) AND 5 = 4" by simp
  have c: "complement (RankSet 5) = Some (RankSet 8186)" by code_simp
  show ?thesis
    using mutators_keep_valid [OF v vT r3] v vT r3 c by (simp add: t3 a)
qed

lemma uint_succ: "uint (nb::ushort) \<le> 13 \<Longrightarrow> uint (nb + 1) = uint nb + 1"
  by (simp add: uint_word_ariths)

lemma plus_assign_rank_eq:
  assumes "rankset_checkValid result" "2 \<le> unat r" "unat r \<le> 14"
    "\<not> present result (unat r)"
  shows "plus_assign_rank result (Rank r) = Some (RankSet (rankset_value result OR 2 ^ (unat r - 2)))"
proof -
  have "2 ^ (unat r - 2) AND rankset_value result = 0"
    using assms(4) by (simp add: present_def and.commute and_exp_eq_0_iff_not_bit)
  then show ?thesis using assms by (simp add: plus_assign_rank_def bitMask_valid)
qed

lemma winRanks_loop_eq:
  assumes "rankset_checkValid rs" "unat r \<le> 14" "lw \<le> 13" "rankset_checkValid result"
    "\<forall>n. 2 \<le> n \<and> present result n \<longrightarrow> unat r < n"
  shows "\<exists>W. winRanks_loop rs lw r nb result = Some W \<and> rankset_checkValid W \<and>
           (\<forall>n. 2 \<le> n \<and> n \<le> 14 \<longrightarrow>
              (present W n \<longleftrightarrow> present result n
                 \<or> n \<in> set (take (nat (lw + 1 - uint nb)) (filter (present rs) (down (unat r))))))"
  using assms
proof (induction rs lw r nb result rule: winRanks_loop.induct)
  case (1 rs lw r nb result)
  note v = \<open>rankset_checkValid rs\<close> and vr = \<open>rankset_checkValid result\<close>
  show ?case
  proof (cases "2 \<le> unat r")
    case False
    then have "\<not> Rank_min \<le> r" by (simp add: Rank_min_eq word_le_nat_alt)
    then show ?thesis using False vr
      by (subst winRanks_loop.simps) (simp add: down_stop)
  next
    case True
    have t: "test rs (Rank r) = Some (present rs (unat r))"
      using v True "1.prems"(2) by (simp add: test_present)
    have le: "Rank_min \<le> r" using True by (simp add: Rank_min_eq word_le_nat_alt)
    have pr: "unat (r - 1) = unat r - 1" using True by (rule unat_pred)
    have b: "unat (r - 1) \<le> 14" using pr "1.prems"(2) by simp
    show ?thesis
    proof (cases "present rs (unat r)")
      case False
      have inv: "\<forall>n. 2 \<le> n \<and> present result n \<longrightarrow> unat (r - 1) < n"
        using "1.prems"(5) pr by auto
      from "1.IH"(2) [OF le t False v b "1.prems"(3) vr inv]
      obtain W where W: "winRanks_loop rs lw (r - 1) nb result = Some W" "rankset_checkValid W"
        "\<forall>n. 2 \<le> n \<and> n \<le> 14 \<longrightarrow>
              (present W n \<longleftrightarrow> present result n
                 \<or> n \<in> set (take (nat (lw + 1 - uint nb)) (filter (present rs) (down (unat r - 1)))))"
        unfolding pr by blast
      have "winRanks_loop rs lw r nb result = Some W"
        by (subst winRanks_loop.simps) (simp add: le t False W(1))
      then show ?thesis using W(2,3) False by (simp add: down_step [OF True])
    next
      case p: True
      show ?thesis
      proof (cases "uint nb \<le> lw")
        case False
        have "winRanks_loop rs lw r nb result = Some result"
          by (subst winRanks_loop.simps) (simp add: le t p False)
        moreover have "nat (lw + 1 - uint nb) = 0" using False by simp
        ultimately show ?thesis using vr by simp
      next
        case nl: True
        let ?res = "RankSet (rankset_value result OR 2 ^ (unat r - 2))"
        have np: "\<not> present result (unat r)" using "1.prems"(5) True by auto
        have pa: "plus_assign_rank result (Rank r) = Some ?res"
          using vr True "1.prems"(2) np by (rule plus_assign_rank_eq)
        have vres: "rankset_checkValid ?res" using vr "1.prems"(2) by (simp add: valid_or)
        have pres: "present ?res n \<longleftrightarrow> present result n \<or> n = unat r" if "2 \<le> n" "n \<le> 14" for n
          using that True "1.prems"(2) by (simp add: present_or)
        have pres_any: "present result n \<or> n = unat r" if "present ?res n" "2 \<le> n" for n
        proof -
          from that(1) have "present result n \<or> n - 2 = unat r - 2"
            by (auto simp: present_def bit_or_iff bit_exp_iff)
          then show ?thesis using that(2) True by auto
        qed
        have inv: "\<forall>n. 2 \<le> n \<and> present ?res n \<longrightarrow> unat (r - 1) < n"
        proof (intro allI impI)
          fix n assume a: "2 \<le> n \<and> present ?res n"
          then have "present result n \<or> n = unat r" using pres_any by blast
          then show "unat (r - 1) < n" using a "1.prems"(5) pr True by auto
        qed
        from "1.IH"(1) [OF le t p nl pa v b "1.prems"(3) vres inv]
        obtain W where W: "winRanks_loop rs lw (r - 1) (nb + 1) ?res = Some W" "rankset_checkValid W"
          "\<forall>n. 2 \<le> n \<and> n \<le> 14 \<longrightarrow>
              (present W n \<longleftrightarrow> present ?res n
                 \<or> n \<in> set (take (nat (lw + 1 - uint (nb + 1))) (filter (present rs) (down (unat r - 1)))))"
          unfolding pr by blast
        have u: "uint (nb + 1) = uint nb + 1" using nl "1.prems"(3) by (simp add: uint_succ)
        have k: "nat (lw + 1 - uint nb) = Suc (nat (lw + 1 - uint (nb + 1)))"
          using nl u by simp
        have "winRanks_loop rs lw r nb result = Some W"
          by (subst winRanks_loop.simps) (simp add: le t p nl pa W(1))
        moreover have "\<forall>n. 2 \<le> n \<and> n \<le> 14 \<longrightarrow>
              (present W n \<longleftrightarrow> present result n
                 \<or> n \<in> set (take (nat (lw + 1 - uint nb)) (filter (present rs) (down (unat r)))))"
          using W(3) pres p by (auto simp: down_step [OF True] k)
        ultimately show ?thesis using W(2) by blast
      qed
    qed
  qed
qed

lemma filter_take_filter:
  "distinct L \<Longrightarrow> filter (\<lambda>n. n \<in> set (take k (filter P L))) L = take k (filter P L)"
proof (induction L arbitrary: k)
  case Nil
  then show ?case by simp
next
  case (Cons a L)
  then have d: "distinct L" and a: "a \<notin> set L" by simp_all
  show ?case
  proof (cases "P a")
    case False
    have "a \<notin> set (take k (filter P L))" using a by (auto dest: in_set_takeD)
    then show ?thesis using False Cons.IH [OF d, of k] by simp
  next
    case True
    show ?thesis
    proof (cases k)
      case 0
      then show ?thesis by simp
    next
      case (Suc k')
      have "filter (\<lambda>n. n = a \<or> n \<in> set (take k' (filter P L))) L
            = filter (\<lambda>n. n \<in> set (take k' (filter P L))) L"
        by (rule filter_cong [OF refl]) (use a in auto)
      then show ?thesis using True Suc Cons.IH [OF d, of k'] by simp
    qed
  qed
qed

lemma all_ranks_desc_sorted:
  "sorted_wrt (\<lambda>a b. rank_value b < rank_value a) all_ranks_desc"
  by (simp add: all_ranks_desc_def word_less_nat_alt)

lemma members_sorted:
  "sorted_wrt (\<lambda>a b. rank_value b < rank_value a) (members S)"
  unfolding members_def by (rule sorted_wrt_filter [OF all_ranks_desc_sorted])

lemma take_sorted_lower_bound:
  assumes s: "sorted_wrt (\<lambda>a b. f b < (f a :: uchar)) xs" and k: "1 \<le> k" "k \<le> length xs"
    and r: "r \<in> set (take k xs)"
  shows "f (xs ! (k - 1)) \<le> f r"
proof -
  from r obtain j where j: "j < length (take k xs)" "r = take k xs ! j"
    by (auto simp: in_set_conv_nth)
  then have jk: "j < k" and rj: "r = xs ! j" by simp_all
  show ?thesis
  proof (cases "j = k - 1")
    case True
    then show ?thesis using rj by simp
  next
    case False
    then have "j < k - 1" "k - 1 < length xs" using jk k by auto
    then have "f (xs ! (k - 1)) < f (xs ! j)" using sorted_wrt_nth_less [OF s] by blast
    then show ?thesis using rj by simp
  qed
qed

lemma all_ranks_desc_complete:
  assumes "rank_checkValid r"
  shows "r \<in> set all_ranks_desc"
proof -
  from assms obtain w where r: "r = Rank w" and w: "2 \<le> unat w" "unat w \<le> 14"
    by (rule rank_valid_cases)
  have "of_nat (unat w) = w" by simp
  moreover have "unat w \<in> set (down 14)" using w by (simp add: down_set)
  ultimately have "r \<in> (\<lambda>n. Rank (of_nat n)) ` set (down 14)"
    using r by (metis imageI)
  then show ?thesis by (simp only: all_ranks_desc_down set_map)
qed

lemma members_iff:
  assumes "rankset_checkValid S"
  shows "r \<in> set (members S) \<longleftrightarrow> test S r = Some True"
proof -
  have "test S r = None" if "\<not> rank_checkValid r"
    using that by (simp add: test_def bitMask_def)
  then have "rank_checkValid r" if "test S r = Some True"
    using that by (cases "rank_checkValid r") simp_all
  then have "r \<in> set all_ranks_desc" if "test S r = Some True"
    using that by (simp add: all_ranks_desc_complete)
  then show ?thesis unfolding members_def set_filter by blast
qed

lemma winRanks_present:
  assumes v: "rankset_checkValid S" and k: "1 \<le> unat k" "unat k \<le> 13"
  shows "\<exists>W. winRanks S k = Some W \<and> rankset_checkValid W \<and>
           filter (present W) (down 14) = take (unat k) (filter (present S) (down 14))"
proof -
  have k0: "k \<noteq> 0" using k(1) by auto
  have k14: "k < 14" using k(2) by (simp add: word_less_nat_alt)
  have "int (unat k) \<le> 13" using k(2) by linarith
  then have lw: "uint k \<le> 13" by (simp only: uint_nat)
  have e: "rankset_checkValid RankSet_empty" by (simp add: RankSet_empty_def rankset_checkValid_def)
  have inv: "\<forall>n. 2 \<le> n \<and> present RankSet_empty n \<longrightarrow> unat Rank_max < n"
    by (simp add: present_def RankSet_empty_def)
  have m: "unat Rank_max \<le> 14" by (simp add: Rank_max_eq)
  from winRanks_loop_eq [OF v m lw e inv, of 1]
  obtain W where W: "winRanks_loop S (uint k) Rank_max 1 RankSet_empty = Some W"
    "rankset_checkValid W"
    "\<forall>n. 2 \<le> n \<and> n \<le> 14 \<longrightarrow>
              (present W n \<longleftrightarrow> present RankSet_empty n
                 \<or> n \<in> set (take (nat (uint k + 1 - uint (1::ushort)))
                       (filter (present S) (down (unat Rank_max)))))"
    by blast
  have n: "nat (uint k + 1 - uint (1::ushort)) = unat k" by simp
  have "filter (present W) (down 14)
        = filter (\<lambda>n. n \<in> set (take (unat k) (filter (present S) (down 14)))) (down 14)"
    by (rule filter_cong [OF refl])
       (use W(3) in \<open>simp add: n down_set Rank_max_eq present_def RankSet_empty_def\<close>)
  also have "\<dots> = take (unat k) (filter (present S) (down 14))"
    by (rule filter_take_filter [OF down_distinct])
  finally have "filter (present W) (down 14) = take (unat k) (filter (present S) (down 14))" .
  moreover have "winRanks S k = Some W"
    using v k0 k14 W(1) by (simp add: winRanks_def)
  ultimately show ?thesis using W(2) by blast
qed

lemma winRanks_zero:
  "rankset_checkValid S \<Longrightarrow> winRanks S 0 = Some (RankSet 0)"
  by (simp add: winRanks_def RankSet_of_ushort_def rankset_checkValid_def)

text \<open>
  Claim C5.  For every valid RankSet \<open>S\<close> and every \<open>k\<close> from 0 to 13,
  \<^verbatim>\<open>S.winRanks(k)\<close> returns a valid RankSet \<open>W\<close> with exactly \<open>min(k, S.count())\<close>
  members; its members are the first \<open>k\<close> members of \<open>S\<close> in descending order, so
  when \<open>S\<close> has at least \<open>k \<ge> 1\<close> members every member of \<open>W\<close> is at least the
  \<open>k\<close>-th highest member of \<open>S\<close>; and \<^verbatim>\<open>winRanks(0)\<close> is the empty set.
\<close>

theorem winRanks_top_members:
  assumes "rankset_checkValid S" and "unat k \<le> 13"
  shows "\<exists>W c cW. winRanks S k = Some W \<and> rankset_checkValid W
           \<and> count S = Some c \<and> count W = Some cW
           \<and> unat cW = min (unat k) (unat c)
           \<and> members W = take (unat k) (members S)
           \<and> sorted_wrt (\<lambda>a b. rank_value b < rank_value a) (members S)
           \<and> (1 \<le> unat k \<and> unat k \<le> unat c \<longrightarrow>
                (\<forall>r \<in> set (members W).
                    rank_value (members S ! (unat k - 1)) \<le> rank_value r))
           \<and> winRanks S 0 = Some (RankSet 0) \<and> members (RankSet 0) = []
           \<and> count (RankSet 0) = Some 0"
proof -
  note v = assms(1)
  have z: "rankset_checkValid (RankSet 0)" by (simp add: rankset_checkValid_def)
  have mz: "members (RankSet 0) = []"
    by (simp add: members_eq [OF z] present_def)
  have cz: "count (RankSet 0) = Some 0"
    by (simp add: count_members [OF z] mz)
  have w0: "winRanks S 0 = Some (RankSet 0)" using v by (rule winRanks_zero)
  have ex: "\<exists>W. winRanks S k = Some W \<and> rankset_checkValid W
             \<and> members W = take (unat k) (members S)"
  proof (cases "unat k = 0")
    case True
    then have "k = 0" by (simp add: unat_eq_0)
    then show ?thesis using w0 z mz by simp
  next
    case False
    then have "1 \<le> unat k" by simp
    from winRanks_present [OF v this assms(2)] obtain W where
      W: "winRanks S k = Some W" "rankset_checkValid W"
      "filter (present W) (down 14) = take (unat k) (filter (present S) (down 14))"
      by blast
    have "members W = take (unat k) (members S)"
      by (simp add: members_eq [OF v] members_eq [OF W(2)] W(3) take_map)
    then show ?thesis using W by blast
  qed
  then obtain W where W: "winRanks S k = Some W" "rankset_checkValid W"
    "members W = take (unat k) (members S)" by blast
  let ?c = "of_nat (length (members S)) :: uchar"
  let ?cW = "of_nat (length (members W)) :: uchar"
  have c: "count S = Some ?c" by (rule count_members [OF v])
  have cW: "count W = Some ?cW" by (rule count_members [OF W(2)])
  have uc: "unat ?c = length (members S)"
    using length_members [OF v] by (simp add: unat_count)
  have ucW: "unat ?cW = length (members W)"
    using length_members [OF W(2)] by (simp add: unat_count)
  have mn: "unat ?cW = min (unat k) (unat ?c)"
    unfolding uc ucW by (simp add: W(3) min.commute)
  have lb: "\<forall>r \<in> set (members W). rank_value (members S ! (unat k - 1)) \<le> rank_value r"
    if "1 \<le> unat k" "unat k \<le> unat ?c"
    using take_sorted_lower_bound [OF members_sorted, of "unat k" S] that
    unfolding uc W(3) by blast
  show ?thesis
    using W c cW mn members_sorted lb w0 mz cz by blast
qed

theorem winRanks_top_members_witness:
  "rankset_checkValid (RankSet 0x1803) \<and> unat (2::uchar) \<le> 13
   \<and> winRanks (RankSet 0x1803) 2 = Some (RankSet 0x1800)
   \<and> members (RankSet 0x1803) = [Rank 14, Rank 13, Rank 3, Rank 2]
   \<and> (\<exists>W c cW. winRanks (RankSet 0x1803) 2 = Some W \<and> rankset_checkValid W
         \<and> count (RankSet 0x1803) = Some c \<and> count W = Some cW
         \<and> unat cW = min (unat (2::uchar)) (unat c)
         \<and> members W = take (unat (2::uchar)) (members (RankSet 0x1803))
         \<and> (\<forall>r \<in> set (members W).
               rank_value (members (RankSet 0x1803) ! (unat (2::uchar) - 1)) \<le> rank_value r))"
proof -
  have v: "rankset_checkValid (RankSet 0x1803)" by code_simp
  have k: "unat (2::uchar) \<le> 13" by simp
  have w: "winRanks (RankSet 0x1803) 2 = Some (RankSet 0x1800)" by code_simp
  have m: "members (RankSet 0x1803) = [Rank 14, Rank 13, Rank 3, Rank 2]" by code_simp
  have c: "count (RankSet 0x1803) = Some 4" by code_simp
  from winRanks_top_members [OF v k] obtain W c cW where
    W: "winRanks (RankSet 0x1803) 2 = Some W" "rankset_checkValid W"
       "count (RankSet 0x1803) = Some c" "count W = Some cW"
       "unat cW = min (unat (2::uchar)) (unat c)"
       "members W = take (unat (2::uchar)) (members (RankSet 0x1803))"
       "1 \<le> unat (2::uchar) \<and> unat (2::uchar) \<le> unat c \<longrightarrow>
          (\<forall>r \<in> set (members W).
               rank_value (members (RankSet 0x1803) ! (unat (2::uchar) - 1)) \<le> rank_value r)"
    by blast
  have "unat c = 4" using W(3) c by simp
  then have "\<forall>r \<in> set (members W).
               rank_value (members (RankSet 0x1803) ! (unat (2::uchar) - 1)) \<le> rank_value r"
    using W(7) by simp
  then show ?thesis using v k w m W(1-6) by blast
qed

lemma rank_toNumber_valid:
  "2 \<le> unat r \<Longrightarrow> unat r \<le> 14 \<Longrightarrow> rank_toNumber (Rank r) = Some r"
  by (simp add: rank_toNumber_def rank_checkValid_iff)

lemma row_index: "2 \<le> unat (r::uchar) \<Longrightarrow> nat (uint r - uint Rank_min) = unat r - 2"
proof -
  have "nat (uint r - 2) = nat (uint r) - nat 2" by (rule nat_diff_distrib') simp_all
  then show ?thesis by (simp add: Rank_min_eq)
qed

lemma priority_loop_eq:
  assumes "rankset_checkValid rs" "unat r \<le> 14" "length row = 13"
  shows "\<exists>row'. priority_loop rs r ord row = Some row' \<and> length row' = 13
     \<and> (\<forall>n. 2 \<le> n \<and> n \<le> unat r \<longrightarrow>
           row' ! (n - 2) = (if present rs n
              then ord + of_nat (length (filter (present rs) [n..<Suc (unat r)])) else 0))
     \<and> (\<forall>n. 2 \<le> n \<and> unat r < n \<longrightarrow> row' ! (n - 2) = row ! (n - 2))"
  using assms
proof (induction rs r ord row rule: priority_loop.induct)
  case (1 rs r ord row)
  note v = \<open>rankset_checkValid rs\<close>
  show ?case
  proof (cases "2 \<le> unat r")
    case False
    then have "\<not> Rank_min \<le> r" by (simp add: Rank_min_eq word_le_nat_alt)
    then have "priority_loop rs r ord row = Some row"
      by (subst priority_loop.simps) simp
    then show ?thesis using False "1.prems"(3) by auto
  next
    case True
    have t: "test rs (Rank r) = Some (present rs (unat r))"
      using v True "1.prems"(2) by (simp add: test_present)
    have tn: "rank_toNumber (Rank r) = Some r"
      using True "1.prems"(2) by (rule rank_toNumber_valid)
    have ix: "nat (uint r - uint Rank_min) = unat r - 2" using True by (rule row_index)
    have le: "Rank_min \<le> r" using True by (simp add: Rank_min_eq word_le_nat_alt)
    have pr: "unat (r - 1) = unat r - 1" using True by (rule unat_pred)
    have b: "unat (r - 1) \<le> 14" using pr "1.prems"(2) by simp
    have sp: "Suc (unat r - 1) = unat r" using True by simp
    define ord1 where "ord1 = (if present rs (unat r) then ord + 1 else ord)"
    define row1 where "row1 = row[unat r - 2 := (if present rs (unat r) then ord + 1 else 0)]"
    have l1: "length row1 = 13" using "1.prems"(3) by (simp add: row1_def)
    have IH: "\<exists>row'. priority_loop rs (r - 1) ord1 row1 = Some row' \<and> length row' = 13
       \<and> (\<forall>n. 2 \<le> n \<and> n \<le> unat (r - 1) \<longrightarrow>
           row' ! (n - 2) = (if present rs n
              then ord1 + of_nat (length (filter (present rs) [n..<Suc (unat (r - 1))])) else 0))
       \<and> (\<forall>n. 2 \<le> n \<and> unat (r - 1) < n \<longrightarrow> row' ! (n - 2) = row1 ! (n - 2))"
    proof (cases "present rs (unat r)")
      case p: True
      have l: "length (row[nat (uint r - uint Rank_min) := ord + 1]) = 13"
        using "1.prems"(3) by simp
      have e: "ord1 = ord + 1" "row1 = row[nat (uint r - uint Rank_min) := ord + 1]"
        using p by (simp_all add: ord1_def row1_def ix)
      from "1.IH"(1) [OF le t tn p v b l] show ?thesis unfolding e .
    next
      case p: False
      have l: "length (row[nat (uint r - uint Rank_min) := 0]) = 13"
        using "1.prems"(3) by simp
      have e: "ord1 = ord" "row1 = row[nat (uint r - uint Rank_min) := 0]"
        using p by (simp_all add: ord1_def row1_def ix)
      from "1.IH"(2) [OF le t tn p v b l] show ?thesis unfolding e .
    qed
    then obtain row' where R: "priority_loop rs (r - 1) ord1 row1 = Some row'" "length row' = 13"
       "\<forall>n. 2 \<le> n \<and> n \<le> unat r - 1 \<longrightarrow>
           row' ! (n - 2) = (if present rs n
              then ord1 + of_nat (length (filter (present rs) [n..<unat r])) else 0)"
       "\<forall>n. 2 \<le> n \<and> unat r - 1 < n \<longrightarrow> row' ! (n - 2) = row1 ! (n - 2)"
      unfolding pr sp by blast
    have step: "priority_loop rs r ord row = Some row'"
    proof (cases "present rs (unat r)")
      case True
      then show ?thesis
        by (subst priority_loop.simps) (use R(1) in \<open>simp add: le t tn ix ord1_def row1_def\<close>)
    next
      case False
      then show ?thesis
        by (subst priority_loop.simps) (use R(1) in \<open>simp add: le t tn ix ord1_def row1_def\<close>)
    qed
    have A: "row' ! (n - 2) = (if present rs n
              then ord + of_nat (length (filter (present rs) [n..<Suc (unat r)])) else 0)"
      if n: "2 \<le> n" "n \<le> unat r" for n
    proof (cases "n = unat r")
      case e: True
      have "row' ! (n - 2) = row1 ! (n - 2)" using R(4) n e True by auto
      also have "\<dots> = (if present rs (unat r) then ord + 1 else 0)"
        using "1.prems"(2,3) True e by (simp add: row1_def)
      finally show ?thesis using e by simp
    next
      case False
      then have lt: "n < unat r" using n by simp
      then have "row' ! (n - 2) = (if present rs n
              then ord1 + of_nat (length (filter (present rs) [n..<unat r])) else 0)"
        using R(3) n by auto
      moreover have "[n..<Suc (unat r)] = [n..<unat r] @ [unat r]" using lt by simp
      ultimately show ?thesis by (simp add: ord1_def)
    qed
    have B: "row' ! (n - 2) = row ! (n - 2)" if n: "2 \<le> n" "unat r < n" for n
    proof -
      have "row' ! (n - 2) = row1 ! (n - 2)" using R(4) n by auto
      also have "\<dots> = row ! (n - 2)" using n True by (simp add: row1_def)
      finally show ?thesis .
    qed
    show ?thesis using step R(2) A B by blast
  qed
qed

lemma priorityIfInHand_eq:
  assumes v: "rankset_checkValid S" and w: "2 \<le> unat w" "unat w \<le> 14"
  shows "priorityIfInHand S (Rank w) =
     Some (if present S (unat w)
           then Priority (of_nat (length (filter (present S) [unat w..<15])))
           else priority_nullopt)"
proof -
  let ?row = "replicate (nat (uint Rank_max - uint Rank_min + 1)) (0::uchar)"
  have l: "length ?row = 13" by (simp add: Rank_max_eq Rank_min_eq)
  have m: "unat Rank_max \<le> 14" by (simp add: Rank_max_eq)
  from priority_loop_eq [OF v m l, of 0] obtain row' where
    R: "priority_loop S Rank_max 0 ?row = Some row'"
       "\<forall>n. 2 \<le> n \<and> n \<le> unat Rank_max \<longrightarrow>
           row' ! (n - 2) = (if present S n
              then 0 + of_nat (length (filter (present S) [n..<Suc (unat Rank_max)])) else 0)"
    by blast
  let ?len = "length (filter (present S) [unat w..<15])"
  have temp: "row' ! (unat w - 2) = (if present S (unat w) then of_nat ?len else 0)"
    using R(2) w by (simp add: Rank_max_eq)
  have "?len \<le> length [unat w..<15]" by (rule length_filter_le)
  then have len: "?len \<le> 13" using w by simp
  have pos: "0 < ?len" if "present S (unat w)"
  proof -
    have "unat w \<in> set (filter (present S) [unat w..<15])" using that w by simp
    then show ?thesis by (rule length_pos_if_in_set)
  qed
  have u: "unat (of_nat ?len :: uchar) = ?len" using len by (simp add: unat_count)
  have nz: "(of_nat ?len :: uchar) \<noteq> 0" if "present S (unat w)"
  proof
    assume "(of_nat ?len :: uchar) = 0"
    then have "unat (of_nat ?len :: uchar) = 0" by (simp only: unat_0)
    then show False using pos [OF that] u by simp
  qed
  have pv: "Priority_of_uchar (of_nat ?len) = Some (Priority (of_nat ?len))"
    if "present S (unat w)"
    using nz [OF that] u len
    by (simp add: Priority_of_uchar_def priority_checkValid_def word_le_nat_alt)
  have "2 \<le> int (unat w)" using w(1) by linarith
  then have "2 \<le> uint w" by (simp only: uint_nat)
  then have ge2: "\<not> uint w < 2" by simp
  have unfold: "priorityIfInHand S (Rank w) =
      (if row' ! (unat w - 2) = 0 then Some priority_nullopt
       else Priority_of_uchar (row' ! (unat w - 2)))"
    using v R(1) ge2
    by (simp add: priorityIfInHand_def rank_toNumber_valid [OF w] row_index [OF w(1)] Let_def)
  show ?thesis
  proof (cases "present S (unat w)")
    case True
    then show ?thesis using temp nz pv by (simp add: unfold)
  next
    case False
    then show ?thesis using temp by (simp add: unfold)
  qed
qed

lemma length_filter_from_nth:
  "j < length (filter P (rev [a..<b])) \<Longrightarrow>
   length (filter P [filter P (rev [a..<b]) ! j ..< b]) = Suc j"
proof (induction b arbitrary: j)
  case 0
  then show ?case by simp
next
  case (Suc b)
  show ?case
  proof (cases "a \<le> b")
    case False
    then show ?thesis using Suc.prems by simp
  next
    case True
    let ?xs = "filter P (rev [a..<b])"
    have mem: "?xs ! i < b" if "i < length ?xs" for i
    proof -
      have "?xs ! i \<in> set ?xs" using that by (rule nth_mem)
      then show ?thesis by simp
    qed
    have app: "[?xs ! i ..< Suc b] = [?xs ! i ..< b] @ [b]" if "i < length ?xs" for i
      using mem [OF that] by simp
    show ?thesis
    proof (cases "P b")
      case False
      then have e: "filter P (rev [a..<Suc b]) = ?xs" using True by simp
      have j: "j < length ?xs" using Suc.prems e by simp
      show ?thesis using Suc.IH [OF j] False by (simp only: e app [OF j]) simp
    next
      case p: True
      then have e: "filter P (rev [a..<Suc b]) = b # ?xs" using True by simp
      show ?thesis
      proof (cases j)
        case 0
        then show ?thesis using p by (simp only: e) simp
      next
        case (Suc j')
        then have j: "j' < length ?xs" using Suc.prems e by simp
        show ?thesis using Suc.IH [OF j] p Suc by (simp only: e nth_Cons_Suc app [OF j]) simp
      qed
    qed
  qed
qed

lemma priority_of_member:
  assumes v: "rankset_checkValid S" and j: "j < length (filter (present S) (down 14))"
  shows "priority S (Rank (of_nat (filter (present S) (down 14) ! j)))
         = Some (Priority (of_nat (Suc j)))"
proof -
  let ?xs = "filter (present S) (down 14)"
  let ?n = "?xs ! j"
  have "?n \<in> set ?xs" using j by (rule nth_mem)
  then have n: "present S ?n" "2 \<le> ?n" "?n \<le> 14" by (simp_all add: down_set)
  have u: "unat (of_nat ?n :: uchar) = ?n" using n(3) by (simp add: unat_count)
  have e: "down 14 = rev [2..<15]" unfolding down_def by (simp only: eval_nat_numeral)
  have "length (filter (present S) [?n..<15]) = Suc j"
    using length_filter_from_nth [of j "present S" 2 15] j unfolding e by blast
  then have "priorityIfInHand S (Rank (of_nat ?n)) = Some (Priority (of_nat (Suc j)))"
    using priorityIfInHand_eq [OF v, of "of_nat ?n"] n by (simp only: u) simp
  moreover have "(of_nat (Suc j) :: uchar) \<noteq> 0xBD"
  proof
    assume a: "(of_nat (Suc j) :: uchar) = 0xBD"
    have le: "Suc j \<le> 13" using j length_filter_down [of "present S"] by simp
    then have "unat (of_nat (Suc j) :: uchar) = Suc j" by (simp add: unat_count del: of_nat_Suc)
    moreover have "unat (of_nat (Suc j) :: uchar) = 189" by (simp only: a) simp
    ultimately show False using le by simp
  qed
  ultimately show ?thesis
    by (simp add: priority_def priority_deref_def priority_testOptional_def
        priority_optionalValue_def del: of_nat_Suc)
qed

lemma nonempty_present:
  assumes v: "rankset_checkValid S" and nz: "rankset_value S \<noteq> 0"
  shows "filter (present S) (down 14) \<noteq> []"
proof -
  from nz obtain i where i: "bit (rankset_value S) i"
    by (auto simp: bit_eq_iff)
  then have "i < 13" using v by (simp add: valid_bits)
  then have "i + 2 \<in> set (down 14)" by (simp add: down_set)
  moreover have "present S (i + 2)" using i by (simp add: present_def)
  ultimately have "i + 2 \<in> set (filter (present S) (down 14))" by simp
  then show ?thesis by (metis empty_iff list.set(1))
qed

lemma small_not_sentinel: "n \<le> 14 \<Longrightarrow> (of_nat n :: uchar) \<noteq> 0xBD"
proof
  assume n: "n \<le> 14" and a: "(of_nat n :: uchar) = 0xBD"
  have "unat (of_nat n :: uchar) = n" using n by (rule unat_count)
  moreover have "unat (of_nat n :: uchar) = 189" by (simp only: a) simp
  ultimately show False using n by simp
qed

lemma highestRank_nonempty:
  assumes v: "rankset_checkValid S" and nz: "rankset_value S \<noteq> 0"
  shows "highestRank S = Some (hd (members S)) \<and> \<not> rank_testOptional (hd (members S))
         \<and> priority S (hd (members S)) = Some (Priority 1)"
proof -
  let ?xs = "filter (present S) (down 14)"
  have ne: "?xs \<noteq> []" using v nz by (rule nonempty_present)
  then obtain n ns where xs: "?xs = n # ns" by (cases ?xs) auto
  have hdm: "hd (members S) = Rank (of_nat n)"
    by (simp only: members_eq [OF v] xs) simp
  have "n \<in> set ?xs" by (simp only: xs) simp
  then have n14: "n \<le> 14" by (simp add: down_set)
  have "unat Rank_max \<le> 14" by (simp add: Rank_max_eq)
  from highestRank_loop_eq [OF v this]
  have "highestRank_loop S Rank_max = Some (case ?xs of [] \<Rightarrow> rank_nullopt | n # _ \<Rightarrow> Rank (of_nat n))"
    by (simp only: Rank_max_eq) simp
  then have h: "highestRank S = Some (Rank (of_nat n))"
    using v by (simp only: xs highestRank_def) simp
  have t: "\<not> rank_testOptional (Rank (of_nat n))"
    using small_not_sentinel [OF n14]
    by (simp add: rank_testOptional_def rank_optionalValue_def)
  have j: "0 < length ?xs" using ne by simp
  have "?xs ! 0 = n" by (simp only: xs) simp
  then have p: "priority S (Rank (of_nat n)) = Some (Priority 1)"
    using priority_of_member [OF v j] by simp
  show ?thesis using h t p by (simp only: hdm) simp
qed

lemma priorities_of_members:
  assumes v: "rankset_checkValid S"
  shows "map (priority S) (members S)
         = map (\<lambda>i. Some (Priority (of_nat i))) [1..<Suc (length (members S))]"
proof (rule nth_equalityI)
  show "length (map (priority S) (members S))
        = length (map (\<lambda>i. Some (Priority (of_nat i))) [1..<Suc (length (members S))])"
    by (simp del: upt_Suc)
next
  fix j assume "j < length (map (priority S) (members S))"
  then have j: "j < length (members S)" by simp
  let ?xs = "filter (present S) (down 14)"
  have m: "members S = map (\<lambda>n. Rank (of_nat n)) ?xs" by (rule members_eq [OF v])
  have jx: "j < length ?xs" using j by (simp only: m length_map)
  have "members S ! j = Rank (of_nat (?xs ! j))" using jx by (simp only: m nth_map)
  then have "priority S (members S ! j) = Some (Priority (of_nat (Suc j)))"
    using priority_of_member [OF v jx] by simp
  moreover have "[1..<Suc (length (members S))] ! j = Suc j" using j by (simp del: upt_Suc)
  ultimately show "map (priority S) (members S) ! j
      = map (\<lambda>i. Some (Priority (of_nat i))) [1..<Suc (length (members S))] ! j"
    using j by (simp del: of_nat_Suc upt_Suc)
qed

text \<open>
  Claim C6.  For every valid RankSet \<open>S\<close>: if \<open>S\<close> is not empty then
  \<^verbatim>\<open>highestRank()\<close> returns its highest member, a present value, and
  \<^verbatim>\<open>S.priority(S.highestRank())\<close> is 1; the priorities of the members of \<open>S\<close>, taken
  in descending order of rank, are exactly 1, 2, ..., \<^verbatim>\<open>S.count()\<close>; and for a valid
  rank that is not in \<open>S\<close>, \<^verbatim>\<open>priorityIfInHand\<close> returns the absent value.
\<close>

theorem priority_order:
  assumes "rankset_checkValid S"
  shows "(any S \<longrightarrow>
            highestRank S = Some (hd (members S)) \<and> \<not> rank_testOptional (hd (members S))
            \<and> priority S (hd (members S)) = Some (Priority 1))
       \<and> (\<exists>c. count S = Some c \<and> unat c = length (members S)
              \<and> map (priority S) (members S)
                  = map (\<lambda>i. Some (Priority (of_nat i))) [1..<Suc (unat c)])
       \<and> sorted_wrt (\<lambda>a b. rank_value b < rank_value a) (members S)
       \<and> (\<forall>r. rank_checkValid r \<and> test S r = Some False \<longrightarrow>
              priorityIfInHand S r = Some priority_nullopt
              \<and> priority_testOptional priority_nullopt)"
proof -
  note v = assms
  have 1: "any S \<longrightarrow>
            highestRank S = Some (hd (members S)) \<and> \<not> rank_testOptional (hd (members S))
            \<and> priority S (hd (members S)) = Some (Priority 1)"
    using highestRank_nonempty [OF v] by (simp add: any_def)
  let ?c = "of_nat (length (members S)) :: uchar"
  have c: "count S = Some ?c" by (rule count_members [OF v])
  have uc: "unat ?c = length (members S)"
    using length_members [OF v] by (simp add: unat_count)
  have "map (priority S) (members S)
          = map (\<lambda>i. Some (Priority (of_nat i))) [1..<Suc (unat ?c)]"
    unfolding uc by (rule priorities_of_members [OF v])
  then have 2: "\<exists>c. count S = Some c \<and> unat c = length (members S)
              \<and> map (priority S) (members S)
                  = map (\<lambda>i. Some (Priority (of_nat i))) [1..<Suc (unat c)]"
    using c uc by blast
  have 3: "sorted_wrt (\<lambda>a b. rank_value b < rank_value a) (members S)"
    by (rule members_sorted)
  have 4: "priorityIfInHand S r = Some priority_nullopt \<and> priority_testOptional priority_nullopt"
    if r: "rank_checkValid r" and t: "test S r = Some False" for r
  proof -
    from r obtain w where w: "r = Rank w" "2 \<le> unat w" "unat w \<le> 14"
      by (rule rank_valid_cases)
    have "\<not> present S (unat w)" using t w v by (simp add: test_present)
    then show ?thesis using priorityIfInHand_eq [OF v w(2,3)] w(1)
      by (simp add: priority_testOptional_def priority_nullopt_def)
  qed
  show ?thesis using 1 2 3 4 by blast
qed

theorem priority_order_witness:
  "rankset_checkValid (RankSet 0x1803) \<and> any (RankSet 0x1803)
   \<and> members (RankSet 0x1803) = [Rank 14, Rank 13, Rank 3, Rank 2]
   \<and> highestRank (RankSet 0x1803) = Some (Rank 14)
   \<and> priority (RankSet 0x1803) (Rank 14) = Some (Priority 1)
   \<and> map (priority (RankSet 0x1803)) [Rank 14, Rank 13, Rank 3, Rank 2]
        = [Some (Priority 1), Some (Priority 2), Some (Priority 3), Some (Priority 4)]
   \<and> rank_checkValid (Rank 5) \<and> test (RankSet 0x1803) (Rank 5) = Some False
   \<and> priorityIfInHand (RankSet 0x1803) (Rank 5) = Some priority_nullopt"
proof -
  let ?S = "RankSet 0x1803"
  have v: "rankset_checkValid ?S" by code_simp
  have a: "any ?S" by code_simp
  have m: "members ?S = [Rank 14, Rank 13, Rank 3, Rank 2]" by code_simp
  have r: "rank_checkValid (Rank 5)" by code_simp
  have t: "test ?S (Rank 5) = Some False" by code_simp
  note th = priority_order [OF v]
  from th a have 1: "highestRank ?S = Some (hd (members ?S))"
    "priority ?S (hd (members ?S)) = Some (Priority 1)" by blast+
  from th obtain c :: uchar where c: "unat c = length (members ?S)"
    "map (priority ?S) (members ?S) = map (\<lambda>i. Some (Priority (of_nat i))) [1..<Suc (unat c)]"
    by blast
  have "unat c = 4" using c(1) by (simp only: m) simp
  then have "[1..<Suc (unat c)] = [1, 2, 3, 4]" by (simp add: upt_conv_Cons)
  then have 2: "map (priority ?S) [Rank 14, Rank 13, Rank 3, Rank 2]
        = [Some (Priority 1), Some (Priority 2), Some (Priority 3), Some (Priority 4)]"
    using c(2) by (simp only: m) simp
  from th r t have 3: "priorityIfInHand ?S (Rank 5) = Some priority_nullopt" by blast
  show ?thesis using v a m r t 1 2 3 by simp
qed

lemma single_values_count:
  "list_all (\<lambda>v. count (RankSet v) = Some 1)
     [0x1000, 0x0800, 0x0400, 0x0200, 0x0100, 0x0080, 0x0040, 0x0020,
      0x0010, 0x0008, 0x0004, 0x0002, 0x0001]"
  by code_simp

lemma toSingleRank_default:
  assumes v: "rankset_checkValid S" and c: "count S \<noteq> Some 1"
  shows "toSingleRank S = Some rank_nullopt"
proof -
  have S: "S = RankSet (rankset_value S)" by simp
  have "rankset_value S \<noteq> x" if "count (RankSet x) = Some 1" for x
    using that c S by metis
  then have "rankset_value S \<notin> set [0x1000, 0x0800, 0x0400, 0x0200, 0x0100, 0x0080, 0x0040, 0x0020,
      0x0010, 0x0008, 0x0004, 0x0002, 0x0001]"
    using single_values_count unfolding list_all_iff by blast
  then show ?thesis using v by (simp add: toSingleRank_def)
qed

lemma single_member_value:
  assumes v: "rankset_checkValid S" and xs: "filter (present S) (down 14) = [n]"
  shows "rankset_value S = 2 ^ (n - 2) \<and> 2 \<le> n \<and> n \<le> 14"
proof -
  have "n \<in> set (filter (present S) (down 14))" by (simp only: xs) simp
  then have n: "present S n" "2 \<le> n" "n \<le> 14" by (simp_all add: down_set)
  have "bit (rankset_value S) i \<longleftrightarrow> bit (2 ^ (n - 2) :: ushort) i" for i
  proof
    assume b: "bit (rankset_value S) i"
    then have "i < 13" using v by (simp add: valid_bits)
    then have "i + 2 \<in> set (down 14)" by (simp add: down_set)
    moreover have "present S (i + 2)" using b by (simp add: present_def)
    ultimately have "i + 2 \<in> set (filter (present S) (down 14))" by simp
    then have "i + 2 = n" by (simp only: xs) simp
    then show "bit (2 ^ (n - 2) :: ushort) i" using n by (auto simp: bit_exp_iff)
  next
    assume "bit (2 ^ (n - 2) :: ushort) i"
    then have "i = n - 2" by (simp add: bit_exp_iff)
    then show "bit (rankset_value S) i" using n(1) by (simp add: present_def)
  qed
  then have "rankset_value S = 2 ^ (n - 2)" by (rule bit_eqI)
  then show ?thesis using n by simp
qed

lemma toSingleRank_of_exp:
  assumes v: "rankset_checkValid S" and n: "2 \<le> n" "n \<le> 14"
    and e: "rankset_value S = 2 ^ (n - 2)"
  shows "toSingleRank S = Some (Rank (of_nat n))"
proof -
  have "n \<in> {2, 3, 4, 5, 6, 7, 8, 9, 10, 11, 12, 13, 14}" using n by (simp; arith)
  then show ?thesis
    using v e
    by (elim insertE emptyE)
       (simp_all add: toSingleRank_def Rank_of_uchar_def rank_checkValid_iff)
qed

text \<open>
  Claim C10.  For every valid RankSet \<open>S\<close>: if \<open>S\<close> has exactly one member then
  \<^verbatim>\<open>toSingleRank()\<close> returns that member, as a present value; if it has no member
  or more than one, \<^verbatim>\<open>toSingleRank()\<close> returns the absent value.
\<close>

theorem toSingleRank_iff_single:
  assumes "rankset_checkValid S"
  shows "(count S = Some 1 \<longrightarrow>
            (\<exists>r. toSingleRank S = Some r \<and> \<not> rank_testOptional r \<and> members S = [r]))
       \<and> (count S \<noteq> Some 1 \<longrightarrow>
            toSingleRank S = Some rank_nullopt \<and> rank_testOptional rank_nullopt)"
proof -
  note v = assms
  let ?xs = "filter (present S) (down 14)"
  have 1: "\<exists>r. toSingleRank S = Some r \<and> \<not> rank_testOptional r \<and> members S = [r]"
    if c: "count S = Some 1"
  proof -
    have "(of_nat (length ?xs) :: uchar) = 1" using c count_eq [OF v] by simp
    then have "unat (of_nat (length ?xs) :: uchar) = 1" by (simp only: unat_1)
    then have "length ?xs = 1" using length_filter_down [of "present S"] by (simp add: unat_count)
    then obtain n where xs: "?xs = [n]" by (auto simp: length_Suc_conv)
    from single_member_value [OF v xs]
    have e: "rankset_value S = 2 ^ (n - 2)" and n: "2 \<le> n" "n \<le> 14" by simp_all
    have t: "toSingleRank S = Some (Rank (of_nat n))" by (rule toSingleRank_of_exp [OF v n e])
    have m: "members S = [Rank (of_nat n)]" by (simp only: members_eq [OF v] xs) simp
    have "(of_nat n :: uchar) \<noteq> 0xBD"
    proof
      assume a: "(of_nat n :: uchar) = 0xBD"
      have "unat (of_nat n :: uchar) = n" using n by (simp add: unat_count)
      moreover have "unat (of_nat n :: uchar) = 189" by (simp only: a) simp
      ultimately show False using n by simp
    qed
    then have "\<not> rank_testOptional (Rank (of_nat n))"
      by (simp add: rank_testOptional_def rank_optionalValue_def)
    then show ?thesis using t m by blast
  qed
  have 2: "toSingleRank S = Some rank_nullopt \<and> rank_testOptional rank_nullopt"
    if "count S \<noteq> Some 1"
    using toSingleRank_default [OF v that]
    by (simp add: rank_testOptional_def rank_nullopt_def)
  show ?thesis using 1 2 by blast
qed

theorem toSingleRank_iff_single_witness:
  "rankset_checkValid (RankSet 0x0100) \<and> count (RankSet 0x0100) = Some 1
   \<and> toSingleRank (RankSet 0x0100) = Some (Rank 10) \<and> members (RankSet 0x0100) = [Rank 10]
   \<and> rankset_checkValid (RankSet 0) \<and> count (RankSet 0) = Some 0
   \<and> toSingleRank (RankSet 0) = Some rank_nullopt
   \<and> rankset_checkValid (RankSet 0x1803) \<and> count (RankSet 0x1803) = Some 4
   \<and> toSingleRank (RankSet 0x1803) = Some rank_nullopt"
proof -
  have v1: "rankset_checkValid (RankSet 0x0100)" by code_simp
  have c1: "count (RankSet 0x0100) = Some 1" by code_simp
  have m1: "members (RankSet 0x0100) = [Rank 10]" by code_simp
  have v0: "rankset_checkValid (RankSet 0)" by code_simp
  have c0: "count (RankSet 0) = Some 0" by code_simp
  have v4: "rankset_checkValid (RankSet 0x1803)" by code_simp
  have c4: "count (RankSet 0x1803) = Some 4" by code_simp
  from toSingleRank_iff_single [OF v1] c1 obtain r where
    r: "toSingleRank (RankSet 0x0100) = Some r" "members (RankSet 0x0100) = [r]" by blast
  then have 1: "toSingleRank (RankSet 0x0100) = Some (Rank 10)" using m1 by simp
  have 0: "toSingleRank (RankSet 0) = Some rank_nullopt"
    using toSingleRank_iff_single [OF v0] c0 by simp
  have 4: "toSingleRank (RankSet 0x1803) = Some rank_nullopt"
    using toSingleRank_iff_single [OF v4] c4 by simp
  show ?thesis using v1 c1 m1 v0 c0 v4 c4 1 0 4 by simp
qed

end
